theory Spec2Isabelle
  imports Main
begin

section \<open>JavaScript primitives used by the comment subsystem\<close>

text \<open>
  Numbers that reach the comment code are integers (comment ids, pixel counts, millisecond
  differences); they are modelled as unbounded \<open>int\<close>/\<open>nat\<close>, and \<open>NaN\<close> as \<open>None\<close>.
  Strings are ASCII here (\<open>"20px"\<close>, \<open>"17"\<close>, \<open>"null"\<close>).
\<close>

definition digit_char :: "nat \<Rightarrow> char" where
  "digit_char d = ''0123456789'' ! d"

text \<open>Decimal digits of a non-negative integer, as \<open>String(n)\<close> and a template literal print them.\<close>

fun show_nat :: "nat \<Rightarrow> string" where
  "show_nat n = (if n < 10 then [digit_char n] else show_nat (n div 10) @ [digit_char (n mod 10)])"

declare show_nat.simps [simp del]

definition String_of_int :: "int \<Rightarrow> string" where
  "String_of_int i = (if i < 0 then CHR ''-'' # show_nat (nat (- i)) else show_nat (nat i))"

definition is_digit :: "char \<Rightarrow> bool" where
  "is_digit c = (c \<in> set ''0123456789'')"

definition digit_val :: "char \<Rightarrow> nat" where
  "digit_val c = (of_char c :: nat) - 48"

definition is_space :: "char \<Rightarrow> bool" where
  "is_space c = ((of_char c :: nat) \<in> {9, 10, 11, 12, 13, 32})"

definition digits_value :: "string \<Rightarrow> nat" where
  "digits_value ds = foldl (\<lambda>acc c. 10 * acc + digit_val c) 0 ds"

text \<open>
  \<open>parseInt(s, 10)\<close>: leading white space is skipped, one sign is read, then the longest run
  of decimal digits; with no digit the result is \<open>NaN\<close>.
\<close>

definition parseInt :: "string \<Rightarrow> int option" where
  "parseInt s =
     (let t = dropWhile is_space s;
          neg = (t \<noteq> [] \<and> hd t = CHR ''-'');
          u = (if t \<noteq> [] \<and> (hd t = CHR ''-'' \<or> hd t = CHR ''+'') then tl t else t);
          ds = takeWhile is_digit u
      in if ds = [] then None
         else Some (if neg then - int (digits_value ds) else int (digits_value ds)))"

text \<open>\<open>s.slice(0, -2)\<close>: all but the last two characters (empty when \<open>s\<close> is shorter).\<close>

definition slice_0_m2 :: "string \<Rightarrow> string" where
  "slice_0_m2 s = take (length s - 2) s"

text \<open>\<open>a < b\<close> on numbers: false as soon as one side is \<open>NaN\<close>.\<close>

fun js_less :: "int option \<Rightarrow> int option \<Rightarrow> bool" where
  "js_less (Some a) (Some b) = (a < b)"
| "js_less _ _ = False"

section \<open>Relative age of a comment (\<open>displayCommentRecursive\<close>, first half)\<close>

text \<open>
  \<open>difference\<close> is \<open>new Date() - new Date(createdAt)\<close> in milliseconds, for a \<open>createdAt\<close>
  that parses as a date. \<open>Math.floor(difference / k)\<close> is \<open>difference div k\<close> on \<open>int\<close>.
\<close>

definition dateString :: "int \<Rightarrow> string" where
  "dateString difference =
     (let minutes = difference div 60000;
          hours = difference div 3600000;
          days = difference div 86400000;
          weeks = difference div 604800000
      in if minutes < 1 then ''Just now''
         else
           (let (denomination, time) =
                  (if minutes < 60 then (''minute'', minutes)
                   else if hours < 24 then (''hour'', hours)
                   else if days < 7 then (''day'', days)
                   else (''week'', weeks));
                denomination' = (if time > 1 then denomination @ ''s'' else denomination)
            in String_of_int time @ '' '' @ denomination' @ '' ago''))"

text \<open>The spec's wording of one rendered age: the number, the unit, an \<open>s\<close> when the number exceeds 1.\<close>

definition age_phrase :: "int \<Rightarrow> string \<Rightarrow> string" where
  "age_phrase n unit = String_of_int n @ '' '' @ unit @ (if n > 1 then ''s'' else '''') @ '' ago''"

section \<open>The comment list in the DOM\<close>

text \<open>
  A rendered comment is the \<open>div.thread-comment-box\<close> that \<open>displayCommentDOM\<close> builds. The
  fields are the attributes, texts and inline styles that the code reads or writes later.
\<close>

record comment_box =
  data_comment_id :: string
  data_parent_comment_id :: string
  data_user_id :: string
  comment_likes :: string
  dateContent :: string
  commentContent :: string
  like_textContent :: string
  marginLeft :: string
  display :: string
  data_hidden :: "string option"

text \<open>
  \<open>UI.replyBox\<close> is the one element \<open>#reply-box\<close>. It keeps its attributes wherever it is, so
  they live in the state. Its inline \<open>margin-left\<close> is never written by \<open>main.js\<close>; it is
  what the page gave it, the field \<open>reply_marginLeft\<close>.
\<close>

record reply_box =
  reply_data_editing :: string
  reply_data_comment_id :: string
  reply_data_parent_comment_id :: string
  reply_paddingLeft :: string
  reply_marginLeft :: string

text \<open>
  Modelled from the spec: \<open>index.html\<close>, which declares \<open>#reply-box\<close>, is not among the
  sources. The reply box is an element of its own kind, not of class \<open>thread-comment-box\<close>
  (the spec keeps the one reply slot apart from the rendered comment nodes).

  A child of \<open>UI.threadComments\<close> is a comment box or the reply box; the child list holds the
  marker \<open>ReplyBox\<close> where the element stands, and the element stands nowhere in the list
  while it is detached. \<open>displayComments\<close> removes every child node before anything is
  appended, so the list has no text nodes and \<open>nextSibling\<close> is the next element.
\<close>

datatype node = CommentBox comment_box | ReplyBox

datatype request =
    GET_comments string
  | GET_user int
  | DELETE_comment "int option"
  | PUT_comment_like string bool

record ui =
  threadComments :: "node list"
  replyBox :: reply_box
  threadCommentInput :: string
  threadMainReply_display :: string
  data_is_locked :: string
  errorPopUp :: "string option"
  requests :: "request list"
  localStorage_userId :: "string option"

text \<open>A handler either returns or stops at a \<open>TypeError\<close> (a property read on \<open>undefined\<close>);
  both carry the state reached.\<close>

datatype outcome = Returned ui | Threw ui

fun is_comment_box :: "node \<Rightarrow> bool" where
  "is_comment_box (CommentBox b) = True"
| "is_comment_box ReplyBox = False"

fun node_marginLeft :: "reply_box \<Rightarrow> node \<Rightarrow> string" where
  "node_marginLeft rb (CommentBox b) = marginLeft b"
| "node_marginLeft rb ReplyBox = reply_marginLeft rb"

fun node_data_comment_id :: "reply_box \<Rightarrow> node \<Rightarrow> string" where
  "node_data_comment_id rb (CommentBox b) = data_comment_id b"
| "node_data_comment_id rb ReplyBox = reply_data_comment_id rb"

text \<open>The indent the code reads off a node: \<open>parseInt(node.style.marginLeft.slice(0, -2), 10)\<close>.\<close>

definition indent_of :: "reply_box \<Rightarrow> node \<Rightarrow> int option" where
  "indent_of rb n = parseInt (slice_0_m2 (node_marginLeft rb n))"

definition showErrorPopUp :: "string \<Rightarrow> ui \<Rightarrow> ui" where
  "showErrorPopUp errorMessage st = st\<lparr>errorPopUp := Some errorMessage\<rparr>"

text \<open>
  \<open>unhideComments\<close> visits every \<open>.thread-comment-box\<close>; \<open>unhide\<close> is the body of its loop.
\<close>

fun unhide :: "node \<Rightarrow> node" where
  "unhide (CommentBox comment) =
     (if data_hidden comment = Some ''true'' then CommentBox (comment\<lparr>display := ''block''\<rparr>)
      else CommentBox comment)"
| "unhide ReplyBox = ReplyBox"

definition unhideComments :: "ui \<Rightarrow> ui" where
  "unhideComments st = st\<lparr>threadComments := map unhide (threadComments st)\<rparr>"

subsection \<open>\<open>displayCommentReply\<close>\<close>

text \<open>An id argument is \<open>null\<close> or a number, and the number may be \<open>NaN\<close>.\<close>

datatype js_id = Null | Num "int option"

fun String_of_id :: "js_id \<Rightarrow> string" where
  "String_of_id Null = ''null''"
| "String_of_id (Num None) = ''NaN''"
| "String_of_id (Num (Some i)) = String_of_int i"

text \<open>
  The two search loops keep the last child that is a \<open>thread-comment-box\<close> and carries the
  wanted \<open>data-comment-id\<close>; \<open>found\<close> stays \<open>None\<close> (\<open>undefined\<close>) when no child matches.
\<close>

fun find_comment :: "string \<Rightarrow> node list \<Rightarrow> nat \<Rightarrow> nat option \<Rightarrow> nat option" where
  "find_comment s [] i found = found"
| "find_comment s (CommentBox b # children) i found =
     find_comment s children (i + 1) (if data_comment_id b = s then Some i else found)"
| "find_comment s (ReplyBox # children) i found = find_comment s children (i + 1) found"

text \<open>
  Moving the reply box: \<open>prepend\<close>, \<open>appendChild\<close> and \<open>insertBefore\<close> first take the element
  out of its old place. \<open>insertBefore(replyBox, ref)\<close> with \<open>ref\<close> the reply box itself uses
  the reply box's next sibling as the reference.
\<close>

definition prepend_replyBox :: "node list \<Rightarrow> node list" where
  "prepend_replyBox children = ReplyBox # removeAll ReplyBox children"

definition appendChild_replyBox :: "node list \<Rightarrow> node list" where
  "appendChild_replyBox children = removeAll ReplyBox children @ [ReplyBox]"

definition insertBefore_replyBox :: "nat \<Rightarrow> node list \<Rightarrow> node list" where
  "insertBefore_replyBox ref children =
     (let ref' = (if children ! ref = ReplyBox then ref + 1 else ref)
      in removeAll ReplyBox (take ref' children) @ [ReplyBox] @ removeAll ReplyBox (drop ref' children))"

text \<open>
  \<open>style.paddingLeft = `${indent}px`\<close>: the browser keeps the old value when the text is not a
  padding length (\<open>NaNpx\<close>, or a negative length).
\<close>

definition set_paddingLeft :: "int option \<Rightarrow> reply_box \<Rightarrow> reply_box" where
  "set_paddingLeft indent rb =
     (case indent of
        None \<Rightarrow> rb
      | Some v \<Rightarrow> if v < 0 then rb else rb\<lparr>reply_paddingLeft := String_of_int v @ ''px''\<rparr>)"

definition displayCommentReply :: "js_id \<Rightarrow> js_id \<Rightarrow> string \<Rightarrow> bool \<Rightarrow> ui \<Rightarrow> outcome" where
  "displayCommentReply parentCommentId commentBeforeId content' editing st =
     (let rb1 = (replyBox st)\<lparr>reply_data_editing := (if editing then ''true'' else ''false''),
                               reply_data_comment_id := String_of_id commentBeforeId,
                               reply_data_parent_comment_id := String_of_id parentCommentId\<rparr>;
          st1 = st\<lparr>replyBox := rb1, threadCommentInput := content'\<rparr>;
          indented =
            (if parentCommentId = Null then Some (st1\<lparr>replyBox := rb1\<lparr>reply_paddingLeft := ''0px''\<rparr>\<rparr>)
             else
               (case find_comment (String_of_id parentCommentId) (threadComments st1) 0 None of
                  None \<Rightarrow> None
                | Some p \<Rightarrow>
                    (let indent = map_option (\<lambda>v. v + 10) (indent_of rb1 (threadComments st1 ! p))
                     in Some (st1\<lparr>replyBox := set_paddingLeft indent rb1\<rparr>))))
      in case indented of
           None \<Rightarrow> Threw st1
         | Some st2 \<Rightarrow>
             if commentBeforeId = Null
             then Returned (st2\<lparr>threadComments := prepend_replyBox (threadComments st2)\<rparr>)
             else
               (case find_comment (String_of_id commentBeforeId) (threadComments st2) 0 None of
                  None \<Rightarrow> Threw st2
                | Some c \<Rightarrow>
                    if c + 1 < length (threadComments st2)
                    then Returned (st2\<lparr>threadComments := insertBefore_replyBox (c + 1) (threadComments st2)\<rparr>)
                    else Returned (st2\<lparr>threadComments := appendChild_replyBox (threadComments st2)\<rparr>)))"

subsection \<open>\<open>deleteChildrenComments\<close>\<close>

text \<open>
  The \<open>while\<close> loop over \<open>comment.nextElementSibling\<close>: the argument is the list of siblings
  after the target. A sibling with a larger indent is removed and a \<open>DELETE\<close> is sent for it;
  the first other sibling ends the loop. The result is what is left after the target, and the
  request log.
\<close>

fun delete_walk :: "reply_box \<Rightarrow> int option \<Rightarrow> node list \<Rightarrow> request list \<Rightarrow> node list \<times> request list" where
  "delete_walk rb indent [] reqs = ([], reqs)"
| "delete_walk rb indent (currentNode # siblings) reqs =
     (if js_less indent (indent_of rb currentNode)
      then delete_walk rb indent siblings
             (reqs @ [DELETE_comment (parseInt (node_data_comment_id rb currentNode))])
      else (currentNode # siblings, reqs))"

text \<open>\<open>comment\<close> is the child at position \<open>i\<close> of \<open>UI.threadComments\<close>.\<close>

definition deleteChildrenComments :: "nat \<Rightarrow> ui \<Rightarrow> outcome" where
  "deleteChildrenComments i st =
     (let rb = replyBox st;
          children = threadComments st;
          comment = children ! i;
          indent = indent_of rb comment;
          (after, reqs) = delete_walk rb indent (drop (i + 1) children) (requests st);
          reqs' = reqs @ [DELETE_comment (parseInt (node_data_comment_id rb comment))];
          st1 = st\<lparr>threadComments := take i children @ after, requests := reqs'\<rparr>
      in if length (threadComments st1) = 0 \<and> data_is_locked st1 = ''false''
         then (case displayCommentReply Null Null [] False st1 of
                 Returned st2 \<Rightarrow> Returned (st2\<lparr>threadMainReply_display := ''none''\<rparr>)
               | Threw st2 \<Rightarrow> Threw st2)
         else if length (threadComments st1) = 0 \<and> data_is_locked st1 = ''true''
         then Returned (st1\<lparr>threadMainReply_display := ''none''\<rparr>)
         else Returned (st1\<lparr>threadMainReply_display := ''inline-block''\<rparr>))"

subsection \<open>The click listeners of the comment list\<close>

text \<open>The links of a rendered comment, by their class.\<close>

datatype link = reply | like | edit | delete

text \<open>\<open>attr === "null" ? null : parseInt(attr, 10)\<close>, as the listeners read an id attribute.\<close>

definition id_of_attribute :: "string \<Rightarrow> js_id" where
  "id_of_attribute a = (if a = ''null'' then Null else Num (parseInt a))"

text \<open>\<open>n.toString()\<close> of a number that may be \<open>NaN\<close>.\<close>

fun String_of_num :: "int option \<Rightarrow> string" where
  "String_of_num None = ''NaN''"
| "String_of_num (Some i) = String_of_int i"

text \<open>
  A comment element keeps its identity while the reply box moves around it: the element that
  was child \<open>i\<close> is found again as the \<open>k\<close>-th \<open>thread-comment-box\<close>, \<open>k\<close> the number of
  comment boxes before it.
\<close>

definition box_rank :: "nat \<Rightarrow> node list \<Rightarrow> nat" where
  "box_rank i children = length (filter is_comment_box (take i children))"

fun update_box :: "nat \<Rightarrow> (comment_box \<Rightarrow> comment_box) \<Rightarrow> node list \<Rightarrow> node list" where
  "update_box k f [] = []"
| "update_box k f (ReplyBox # children) = ReplyBox # update_box k f children"
| "update_box 0 f (CommentBox b # children) = CommentBox (f b) # children"
| "update_box (Suc k) f (CommentBox b # children) = CommentBox b # update_box k f children"

text \<open>
  A click on the link \<open>l\<close> inside child \<open>i\<close> of \<open>UI.threadComments\<close>. The links live in
  comment boxes; \<open>closest('.thread-comment-box')\<close> is \<open>null\<close> for any other child, and the
  first property read on it throws. No element is clicked when \<open>i\<close> is past the end.
\<close>

definition threadComments_click :: "link \<Rightarrow> nat \<Rightarrow> ui \<Rightarrow> outcome" where
  "threadComments_click l i st =
     (if length (threadComments st) \<le> i then Returned st
      else if data_is_locked st = ''true'' then Returned (showErrorPopUp ''thread is locked'' st)
      else
        (case l of
           reply \<Rightarrow>
             (let st1 = unhideComments st
              in case threadComments st1 ! i of
                   ReplyBox \<Rightarrow> Threw st1
                 | CommentBox parent \<Rightarrow>
                     (let parentCommentId = id_of_attribute (data_comment_id parent)
                      in displayCommentReply parentCommentId parentCommentId [] False st1))
         | like \<Rightarrow>
             (case threadComments st ! i of
                ReplyBox \<Rightarrow> Threw st
              | CommentBox comment \<Rightarrow>
                  (let currentLikes = parseInt (comment_likes comment);
                       unliking = (like_textContent comment = ''unlike'');
                       newLikes = map_option (\<lambda>n. if unliking then n - 1 else n + 1) currentLikes;
                       comment' = comment\<lparr>like_textContent := (if unliking then ''like'' else ''unlike''),
                                           comment_likes := String_of_num newLikes\<rparr>
                   in Returned (st\<lparr>threadComments := (threadComments st)[i := CommentBox comment'],
                                    requests := requests st @
                                      [PUT_comment_like (data_comment_id comment) (\<not> unliking)]\<rparr>)))
         | edit \<Rightarrow>
             (let st1 = unhideComments st
              in case threadComments st1 ! i of
                   ReplyBox \<Rightarrow> Threw st1
                 | CommentBox comment \<Rightarrow>
                     (let commentId = id_of_attribute (data_comment_id comment);
                          parentCommentId = id_of_attribute (data_parent_comment_id comment)
                      in case displayCommentReply parentCommentId commentId (commentContent comment) True st1 of
                           Threw st2 \<Rightarrow> Threw st2
                         | Returned st2 \<Rightarrow>
                             Returned (st2\<lparr>threadComments :=
                               update_box (box_rank i (threadComments st1))
                                 (\<lambda>b. b\<lparr>display := ''none'', data_hidden := Some ''true''\<rparr>)
                                 (threadComments st2)\<rparr>)))
         | delete \<Rightarrow>
             (case threadComments st ! i of
                ReplyBox \<Rightarrow> Threw st
              | CommentBox comment \<Rightarrow> deleteChildrenComments i st)))"


section \<open>Rendering the flat comment list\<close>

text \<open>
  A record of \<open>GET comments\<close>. \<open>createdAt\<close> is the time value of \<open>new Date(createdAt)\<close> in
  milliseconds, for a date string that parses.
\<close>

record comment =
  commentId :: int
  parentCommentId :: "int option"
  creatorId :: int
  content :: string
  createdAt :: int
  likes :: "int list"

text \<open>
  \<open>displayCommentDOM\<close> appends the new box to \<open>UI.threadComments\<close> and asks for the author's
  profile; the answer only fills the avatar picture, which is not part of the model.
\<close>

definition displayCommentDOM ::
  "int \<Rightarrow> int option \<Rightarrow> int \<Rightarrow> nat \<Rightarrow> bool \<Rightarrow> string \<Rightarrow> string \<Rightarrow> nat \<Rightarrow> ui \<Rightarrow> ui" where
  "displayCommentDOM cId pId crId nlikes userLiked dateStr content' indentLevel st =
     (let newCommentBox =
            \<lparr>data_comment_id = String_of_int cId,
             data_parent_comment_id = (case pId of None \<Rightarrow> ''null'' | Some p \<Rightarrow> String_of_int p),
             data_user_id = String_of_int crId,
             comment_likes = show_nat nlikes,
             dateContent = dateStr,
             commentContent = content',
             like_textContent = (if userLiked then ''unlike'' else ''like''),
             marginLeft = show_nat (indentLevel * 10) @ ''px'',
             display = [],
             data_hidden = None\<rparr>
      in st\<lparr>threadComments := threadComments st @ [CommentBox newCommentBox],
             requests := requests st @ [GET_user crId]\<rparr>)"

text \<open>
  \<open>likes.includes(parseInt(localStorage.getItem('userId'), 10))\<close>: the stored text may be
  missing or may not parse, and \<open>NaN\<close> is in no list.
\<close>

definition includes_userId :: "int list \<Rightarrow> string option \<Rightarrow> bool" where
  "includes_userId ls stored =
     (case stored of
        None \<Rightarrow> False
      | Some u \<Rightarrow> (case parseInt u of None \<Rightarrow> False | Some v \<Rightarrow> v \<in> set ls))"

text \<open>\<open>xs.forEach\<close> with a body that may fail to return: the first failure ends the pass.\<close>

fun forEach :: "('a \<Rightarrow> 's \<Rightarrow> 's option) \<Rightarrow> 'a list \<Rightarrow> 's \<Rightarrow> 's option" where
  "forEach body [] s = Some s"
| "forEach body (x # xs) s = (case body x s of None \<Rightarrow> None | Some s' \<Rightarrow> forEach body xs s')"

text \<open>
  \<open>displayCommentRecursive\<close> has no bound of its own; the first argument bounds the nesting of
  calls, and \<open>None\<close> says that the bound was reached. \<open>now\<close> is the value of \<open>new Date()\<close>,
  taken as the same instant for the whole pass.
\<close>

primrec displayCommentRecursive ::
  "nat \<Rightarrow> int \<Rightarrow> nat \<Rightarrow> comment list \<Rightarrow> nat \<Rightarrow> int option \<Rightarrow> ui \<Rightarrow> ui option" where
  "displayCommentRecursive 0 now indentLevel comments index pId st = None"
| "displayCommentRecursive (Suc fuel) now indentLevel comments index pId st =
     (let c = comments ! index;
          dateStr = dateString (now - createdAt c);
          userLiked = includes_userId (likes c) (localStorage_userId st);
          cId = commentId c;
          st1 = displayCommentDOM cId pId (creatorId c) (length (likes c)) userLiked dateStr
                  (content c) indentLevel st
      in forEach
           (\<lambda>newIndex s.
              if parentCommentId (comments ! newIndex) = Some cId
              then displayCommentRecursive fuel now (indentLevel + 1) comments newIndex (Some cId) s
              else Some s)
           [0..<length comments] st1)"

text \<open>
  \<open>displayComments\<close> runs in two steps. At the call the list is cleared and the comments of
  the thread are asked for. When the answer arrives (\<open>Inr\<close> the fetched list, \<open>Inl\<close> the
  message of a rejected call), the list is sorted (\<open>Array.prototype.sort\<close> is stable) by
  \<open>createdAt\<close>, latest first, and rendered from its roots; a rejected call, and anything
  thrown while rendering, ends in the error popup.
\<close>

definition displayComments_request :: "string \<Rightarrow> ui \<Rightarrow> ui" where
  "displayComments_request threadId st =
     st\<lparr>threadComments := [], requests := requests st @ [GET_comments threadId]\<rparr>"

definition displayComments_response :: "nat \<Rightarrow> int \<Rightarrow> string + comment list \<Rightarrow> ui \<Rightarrow> ui option" where
  "displayComments_response fuel now response st0 =
     (case response of
        Inl error \<Rightarrow> Some (showErrorPopUp error st0)
      | Inr fetched \<Rightarrow>
          (let comments = sort_key (\<lambda>c. - createdAt c) fetched
           in case forEach
                     (\<lambda>index s.
                        if parentCommentId (comments ! index) = None
                        then displayCommentRecursive fuel now 0 comments index None s
                        else Some s)
                     [0..<length comments] st0 of
                None \<Rightarrow> None
              | Some st1 \<Rightarrow>
                  if length comments = 0 \<and> data_is_locked st1 = ''false''
                  then (case displayCommentReply Null Null [] False st1 of
                          Returned st2 \<Rightarrow> Some (st2\<lparr>threadMainReply_display := ''none''\<rparr>)
                        | Threw st2 \<Rightarrow> Some (showErrorPopUp ''TypeError'' st2))
                  else if length comments = 0 \<and> data_is_locked st1 = ''true''
                  then Some (st1\<lparr>threadMainReply_display := ''none''\<rparr>)
                  else Some (st1\<lparr>threadMainReply_display := ''inline-block''\<rparr>)))"

text \<open>A whole pass: the call, and the answer arriving before anything else happens.\<close>

definition displayComments :: "nat \<Rightarrow> int \<Rightarrow> string \<Rightarrow> string + comment list \<Rightarrow> ui \<Rightarrow> ui option" where
  "displayComments fuel now threadId response st =
     displayComments_response fuel now response (displayComments_request threadId st)"

section \<open>What the claims speak of\<close>

text \<open>
  \<open>n\<close> lies deeper than \<open>target\<close>: both indents, read as the code reads them, are numbers
  and the one of \<open>n\<close> is strictly greater.
\<close>

definition deeper_than :: "reply_box \<Rightarrow> node \<Rightarrow> node \<Rightarrow> bool" where
  "deeper_than rb target n = js_less (indent_of rb target) (indent_of rb n)"

text \<open>The maximal run of siblings right after child \<open>i\<close> that lie deeper than it.\<close>

definition descendant_run :: "nat \<Rightarrow> ui \<Rightarrow> node list" where
  "descendant_run i st =
     takeWhile (deeper_than (replyBox st) (threadComments st ! i)) (drop (i + 1) (threadComments st))"

text \<open>The child list without child \<open>i\<close> and without that run.\<close>

definition remaining_nodes :: "nat \<Rightarrow> ui \<Rightarrow> node list" where
  "remaining_nodes i st =
     take i (threadComments st) @ drop (i + 1 + length (descendant_run i st)) (threadComments st)"

text \<open>One \<open>DELETE comment\<close> for each node of the run, in document order, then one for child \<open>i\<close>.\<close>

definition delete_requests :: "nat \<Rightarrow> ui \<Rightarrow> request list" where
  "delete_requests i st =
     map (\<lambda>n. DELETE_comment (parseInt (node_data_comment_id (replyBox st) n)))
       (descendant_run i st @ [threadComments st ! i])"

text \<open>The reply box set up for a new top-level comment.\<close>

definition compose_new :: "reply_box \<Rightarrow> reply_box" where
  "compose_new rb = rb\<lparr>reply_data_editing := ''false'', reply_data_comment_id := ''null'',
                       reply_data_parent_comment_id := ''null'', reply_paddingLeft := ''0px''\<rparr>"

text \<open>A child that is a comment box carrying the given \<open>data-comment-id\<close>.\<close>

fun carries_id :: "string \<Rightarrow> node \<Rightarrow> bool" where
  "carries_id s (CommentBox b) = (data_comment_id b = s)"
| "carries_id s ReplyBox = False"


text \<open>The comment boxes of a child list, in document order.\<close>

fun boxes :: "node list \<Rightarrow> comment_box list" where
  "boxes [] = []"
| "boxes (CommentBox b # children) = b # boxes children"
| "boxes (ReplyBox # children) = boxes children"



subsection \<open>A small thread, for the concrete instances\<close>

text \<open>A box as \<open>displayCommentDOM\<close> renders it at the given level, and a thread of five.\<close>

definition example_box :: "int \<Rightarrow> int option \<Rightarrow> nat \<Rightarrow> comment_box" where
  "example_box cId pId level =
     \<lparr>data_comment_id = String_of_int cId,
      data_parent_comment_id = (case pId of None \<Rightarrow> ''null'' | Some p \<Rightarrow> String_of_int p),
      data_user_id = ''7'', comment_likes = ''0'', dateContent = ''Just now'',
      commentContent = ''text'', like_textContent = ''like'',
      marginLeft = show_nat (level * 10) @ ''px'', display = [], data_hidden = None\<rparr>"

definition example_replyBox :: reply_box where
  "example_replyBox =
     \<lparr>reply_data_editing = ''false'', reply_data_comment_id = ''null'',
      reply_data_parent_comment_id = ''null'', reply_paddingLeft = ''0px'', reply_marginLeft = []\<rparr>"

definition example_ui :: "node list \<Rightarrow> string \<Rightarrow> ui" where
  "example_ui children locked =
     \<lparr>threadComments = children, replyBox = example_replyBox, threadCommentInput = [],
      threadMainReply_display = ''inline-block'', data_is_locked = locked, errorPopUp = None,
      requests = [], localStorage_userId = Some ''7''\<rparr>"

definition example_thread :: "node list" where
  "example_thread =
     [CommentBox (example_box 1 None 0), CommentBox (example_box 2 (Some 1) 1),
      CommentBox (example_box 3 (Some 2) 2), CommentBox (example_box 4 (Some 1) 1),
      CommentBox (example_box 5 None 0)]"



text \<open>
  The scenario of the spec: comment 1 (root, at \<open>T0\<close>), comment 2 (child of 1), comment 3 (root,
  later than \<open>T0\<close>); the user with id 7 has liked comment 2.
\<close>

definition example_comments :: "comment list" where
  "example_comments =
     [\<lparr>commentId = 1, parentCommentId = None, creatorId = 7, content = ''first'', createdAt = 1000, likes = []\<rparr>,
      \<lparr>commentId = 2, parentCommentId = Some 1, creatorId = 8, content = ''second'', createdAt = 2000, likes = [7]\<rparr>,
      \<lparr>commentId = 3, parentCommentId = None, creatorId = 7, content = ''third'', createdAt = 3000, likes = []\<rparr>]"

text \<open>The box that a render pass builds for a record, at a level, with its age and like label.\<close>

definition rendered_box :: "comment \<Rightarrow> nat \<Rightarrow> string \<Rightarrow> string \<Rightarrow> comment_box" where
  "rendered_box c level age like_label =
     \<lparr>data_comment_id = String_of_int (commentId c),
      data_parent_comment_id = (case parentCommentId c of None \<Rightarrow> ''null'' | Some p \<Rightarrow> String_of_int p),
      data_user_id = String_of_int (creatorId c), comment_likes = show_nat (length (likes c)),
      dateContent = age, commentContent = content c, like_textContent = like_label,
      marginLeft = show_nat (level * 10) @ ''px'', display = [], data_hidden = None\<rparr>"

text \<open>The scenario rendered, and then an edit opened on comment 1.\<close>

definition example_rendered :: ui where
  "example_rendered =
     (example_ui [ReplyBox] ''false'')
        \<lparr>threadComments :=
           [CommentBox (rendered_box (example_comments ! 2) 0 ''1 minute ago'' ''like''),
            CommentBox (rendered_box (example_comments ! 0) 0 ''1 minute ago'' ''like''),
            CommentBox (rendered_box (example_comments ! 1) 1 ''1 minute ago'' ''unlike'')],
          requests := [GET_comments ''42'', GET_user 7, GET_user 7, GET_user 8],
          threadMainReply_display := ''inline-block''\<rparr>"


section \<open>The tree that a render pass lays out\<close>

text \<open>The box of a record at a level, for the current time and the stored user id.\<close>

definition render_box :: "int \<Rightarrow> string option \<Rightarrow> comment \<Rightarrow> nat \<Rightarrow> comment_box" where
  "render_box now stored c level =
     rendered_box c level (dateString (now - createdAt c))
       (if includes_userId (likes c) stored then ''unlike'' else ''like'')"

text \<open>
  The spec's reconstruction of the tree: a comment at its level, then, for each of its direct
  children in the order of the flat list, that child's subtree one level deeper. The bound on
  the nesting is the one of \<open>displayCommentRecursive\<close>.
\<close>

primrec render_order :: "nat \<Rightarrow> comment list \<Rightarrow> nat \<Rightarrow> comment \<Rightarrow> (comment \<times> nat) list option" where
  "render_order 0 comments level c = None"
| "render_order (Suc fuel) comments level c =
     map_option (\<lambda>subtrees. (c, level) # concat subtrees)
       (those (map (render_order fuel comments (Suc level))
                 (filter (\<lambda>d. parentCommentId d = Some (commentId c)) comments)))"

text \<open>Appending the boxes of a sequence of (record, level) pairs, and asking for each author.\<close>

definition append_rendered :: "int \<Rightarrow> (comment \<times> nat) list \<Rightarrow> ui \<Rightarrow> ui" where
  "append_rendered now xs st =
     st\<lparr>threadComments := threadComments st @
            map (\<lambda>(c, level). CommentBox (render_box now (localStorage_userId st) c level)) xs,
        requests := requests st @ map (\<lambda>(c, level). GET_user (creatorId c)) xs\<rparr>"

text \<open>
  The depth of a record along the \<open>parentCommentId\<close> chain: a record without parent has depth
  0, and a record whose parent id is the id of a record of the list with depth \<open>k\<close> has depth
  \<open>k + 1\<close>.
\<close>

inductive depth_rel :: "comment list \<Rightarrow> comment \<Rightarrow> nat \<Rightarrow> bool"
  for comments :: "comment list" where
  root: "parentCommentId c = None \<Longrightarrow> depth_rel comments c 0"
| child: "parentCommentId c = Some p \<Longrightarrow> d \<in> set comments \<Longrightarrow> commentId d = p \<Longrightarrow>
          depth_rel comments d k \<Longrightarrow> depth_rel comments c (Suc k)"

code_pred depth_rel .

text \<open>
  A forest: the ids are unique, and from every record the chain of parents ends at a record
  without parent (so every parent id is in the list and no chain runs in a cycle).
\<close>

definition forest :: "comment list \<Rightarrow> bool" where
  "forest comments =
     (distinct (map commentId comments) \<and> (\<forall>c \<in> set comments. \<exists>k. depth_rel comments c k))"

text \<open>The whole pass over a list: its roots in list order, each followed by its subtree.\<close>

definition render_pass :: "nat \<Rightarrow> comment list \<Rightarrow> (comment \<times> nat) list option" where
  "render_pass fuel comments =
     map_option concat
       (those (map (render_order fuel comments 0) (filter (\<lambda>c. parentCommentId c = None) comments)))"

text \<open>The three cases that end \<open>displayComments\<close>, on the number of fetched comments.\<close>

definition reply_affordance :: "nat \<Rightarrow> ui \<Rightarrow> ui" where
  "reply_affordance n st =
     (if n = 0 \<and> data_is_locked st = ''false''
      then st\<lparr>replyBox := compose_new (replyBox st), threadCommentInput := [],
              threadComments := ReplyBox # removeAll ReplyBox (threadComments st),
              threadMainReply_display := ''none''\<rparr>
      else if n = 0 \<and> data_is_locked st = ''true''
      then st\<lparr>threadMainReply_display := ''none''\<rparr>
      else st\<lparr>threadMainReply_display := ''inline-block''\<rparr>)"

text \<open>\<open>a\<close> is the ancestor of \<open>d\<close> that stands \<open>n\<close> parent links above it.\<close>

inductive ancestor :: "comment list \<Rightarrow> comment \<Rightarrow> nat \<Rightarrow> comment \<Rightarrow> bool"
  for comments :: "comment list" and a :: comment where
  self: "ancestor comments a 0 a"
| step: "parentCommentId d = Some (commentId e) \<Longrightarrow> e \<in> set comments \<Longrightarrow>
         ancestor comments a n e \<Longrightarrow> ancestor comments a (Suc n) d"

code_pred ancestor .

section \<open>Properties\<close>

lemma show_nat_small: "n < 10 \<Longrightarrow> show_nat n = [digit_char n]"
  by (simp add: show_nat.simps)

lemma dateString_unfold:
  "dateString d =
     (if d < 60000 then ''Just now''
      else if d < 3600000 then age_phrase (d div 60000) ''minute''
      else if d < 86400000 then age_phrase (d div 3600000) ''hour''
      else if d < 604800000 then age_phrase (d div 86400000) ''day''
      else age_phrase (d div 604800000) ''week'')"
proof -
  have m1: "(d div 60000 < 1) = (d < 60000)" by linarith
  have m60: "(d div 60000 < 60) = (d < 3600000)" by linarith
  have h24: "(d div 3600000 < 24) = (d < 86400000)" by linarith
  have d7: "(d div 86400000 < 7) = (d < 604800000)" by linarith
  show ?thesis
    unfolding dateString_def Let_def m1 m60 h24 d7 age_phrase_def
    by simp
qed

subsection \<open>Numbers and their decimal text\<close>

lemma digit_char_is_digit: "d < 10 \<Longrightarrow> is_digit (digit_char d)"
proof -
  assume "d < 10"
  then have "d \<in> {0,1,2,3,4,5,6,7,8,9}" by auto
  then show ?thesis by (auto simp: is_digit_def digit_char_def)
qed

lemma digit_val_digit_char: "d < 10 \<Longrightarrow> digit_val (digit_char d) = d"
proof -
  assume "d < 10"
  then have "d \<in> {0,1,2,3,4,5,6,7,8,9}" by auto
  then show ?thesis by (auto simp: digit_val_def digit_char_def)
qed

lemma digit_not_space: "is_digit c \<Longrightarrow> \<not> is_space c"
  by (auto simp: is_digit_def is_space_def)

lemma digit_not_sign: "is_digit c \<Longrightarrow> c \<noteq> CHR ''-'' \<and> c \<noteq> CHR ''+''"
  by (auto simp: is_digit_def)

lemma show_nat_digits: "\<forall>c \<in> set (show_nat n). is_digit c"
proof (induction n rule: show_nat.induct)
  case (1 n)
  then show ?case
    by (subst show_nat.simps) (auto simp: digit_char_is_digit)
qed

lemma show_nat_nonempty: "show_nat n \<noteq> []"
  by (subst show_nat.simps) simp

lemma digits_value_snoc: "digits_value (ds @ [c]) = 10 * digits_value ds + digit_val c"
  by (simp add: digits_value_def)

lemma digits_value_show_nat: "digits_value (show_nat n) = n"
proof (induction n rule: show_nat.induct)
  case (1 n)
  show ?case
  proof (cases "n < 10")
    case True
    then show ?thesis
      by (simp add: show_nat_small digits_value_def digit_val_digit_char)
  next
    case False
    then have "show_nat n = show_nat (n div 10) @ [digit_char (n mod 10)]"
      by (subst show_nat.simps) simp
    with False 1 show ?thesis
      by (simp add: digits_value_snoc digit_val_digit_char)
  qed
qed

lemma parseInt_digits:
  assumes "ds \<noteq> []" "\<forall>c \<in> set ds. is_digit c"
  shows "parseInt ds = Some (int (digits_value ds))"
proof -
  obtain c r where ds: "ds = c # r" using assms(1) by (cases ds) auto
  have c: "is_digit c" using assms(2) ds by simp
  have dw: "dropWhile is_space ds = ds" using c ds digit_not_space by simp
  have tw: "takeWhile is_digit ds = ds" using assms(2) by (simp add: takeWhile_eq_all_conv)
  have hd: "hd ds \<noteq> CHR ''-''" "hd ds \<noteq> CHR ''+''"
    using digit_not_sign[OF c] ds by simp_all
  show ?thesis
    unfolding parseInt_def dw Let_def
    using hd assms(1) by (simp add: tw)
qed

lemma parseInt_show_nat: "parseInt (show_nat n) = Some (int n)"
  using parseInt_digits[OF show_nat_nonempty show_nat_digits, of n]
  by (simp add: digits_value_show_nat)

lemma parseInt_String_of_int: "parseInt (String_of_int i) = Some i"
proof (cases "i < 0")
  case False
  then show ?thesis by (simp add: String_of_int_def parseInt_show_nat)
next
  case True
  let ?ds = "show_nat (nat (- i))"
  have m: "\<not> is_space CHR ''-''" by (simp add: is_space_def)
  have tw: "takeWhile is_digit ?ds = ?ds"
    using show_nat_digits by (simp add: takeWhile_eq_all_conv)
  show ?thesis
    using True show_nat_nonempty[of "nat (- i)"]
    by (simp add: String_of_int_def parseInt_def m tw digits_value_show_nat)
qed

lemma String_of_int_inj: "String_of_int i = String_of_int j \<Longrightarrow> i = j"
  by (metis parseInt_String_of_int option.inject)

lemma parseInt_null: "parseInt ''null'' = None"
  by (simp add: parseInt_def is_space_def is_digit_def)

lemma String_of_int_not_null: "String_of_int i \<noteq> ''null''"
  by (metis parseInt_String_of_int parseInt_null option.distinct(1))

lemma slice_px: "slice_0_m2 (s @ ''px'') = s"
  by (simp add: slice_0_m2_def)

lemma parseInt_empty: "parseInt [] = None"
  by (simp add: parseInt_def)

subsection \<open>Relative age\<close>

text \<open>
  Claim C5. For a comment created \<open>d\<close> milliseconds before the current time, the rendered age
  is \<open>Just now\<close> when \<open>d\<close> is under one minute; otherwise it is the floored number of minutes
  (under 60 minutes), hours (under 24 hours), days (under 7 days) or weeks, the unit taking an
  \<open>s\<close> exactly when that number is greater than 1. In particular 30 seconds give
  \<open>Just now\<close>, 5 minutes \<open>5 minutes ago\<close>, 90 minutes \<open>1 hour ago\<close> and 10 days
  \<open>1 week ago\<close>.
\<close>

theorem dateString_relative_age:
  "dateString d =
     (if d < 60000 then ''Just now''
      else if d < 3600000 then age_phrase (d div 60000) ''minute''
      else if d < 86400000 then age_phrase (d div 3600000) ''hour''
      else if d < 604800000 then age_phrase (d div 86400000) ''day''
      else age_phrase (d div 604800000) ''week'')
   \<and> dateString (30 * 1000) = ''Just now''
   \<and> dateString (5 * 60 * 1000) = ''5 minutes ago''
   \<and> dateString (90 * 60 * 1000) = ''1 hour ago''
   \<and> dateString (10 * 24 * 60 * 60 * 1000) = ''1 week ago''"
proof -
  have e1: "dateString (30 * 1000) = ''Just now''"
    by (simp add: dateString_def)
  have e2: "dateString (5 * 60 * 1000) = ''5 minutes ago''"
    by (simp add: dateString_def String_of_int_def show_nat.simps digit_char_def)
  have e3: "dateString (90 * 60 * 1000) = ''1 hour ago''"
    by (simp add: dateString_def String_of_int_def show_nat.simps digit_char_def)
  have e4: "dateString (10 * 24 * 60 * 60 * 1000) = ''1 week ago''"
    by (simp add: dateString_def String_of_int_def show_nat.simps digit_char_def)
  show ?thesis
    using dateString_unfold[of d] e1 e2 e3 e4 by blast
qed

subsection \<open>Cascading delete\<close>

lemma delete_walk_eq:
  "delete_walk rb indent siblings reqs =
     (dropWhile (\<lambda>n. js_less indent (indent_of rb n)) siblings,
      reqs @ map (\<lambda>n. DELETE_comment (parseInt (node_data_comment_id rb n)))
               (takeWhile (\<lambda>n. js_less indent (indent_of rb n)) siblings))"
  by (induction siblings arbitrary: reqs) simp_all

lemma displayCommentReply_top:
  "displayCommentReply Null Null c e st =
     Returned (st\<lparr>replyBox := (replyBox st)\<lparr>reply_data_editing := (if e then ''true'' else ''false''),
                                  reply_data_comment_id := ''null'',
                                  reply_data_parent_comment_id := ''null'',
                                  reply_paddingLeft := ''0px''\<rparr>,
                  threadCommentInput := c,
                  threadComments := ReplyBox # removeAll ReplyBox (threadComments st)\<rparr>)"
  by (simp add: displayCommentReply_def prepend_replyBox_def)

lemma dropWhile_as_drop: "dropWhile P xs = drop (length (takeWhile P xs)) xs"
  by (induction xs) simp_all

lemma deleteChildrenComments_eq:
  "deleteChildrenComments i st =
     Returned
       (if remaining_nodes i st = [] \<and> data_is_locked st = ''false''
        then st\<lparr>threadComments := [ReplyBox], requests := requests st @ delete_requests i st,
                replyBox := compose_new (replyBox st), threadCommentInput := [],
                threadMainReply_display := ''none''\<rparr>
        else if remaining_nodes i st = [] \<and> data_is_locked st = ''true''
        then st\<lparr>threadComments := [], requests := requests st @ delete_requests i st,
                threadMainReply_display := ''none''\<rparr>
        else st\<lparr>threadComments := remaining_nodes i st,
                requests := requests st @ delete_requests i st,
                threadMainReply_display := ''inline-block''\<rparr>)"
proof -
  let ?cs = "threadComments st"
  let ?P = "deeper_than (replyBox st) (?cs ! i)"
  have P: "(\<lambda>n. js_less (indent_of (replyBox st) (?cs ! i)) (indent_of (replyBox st) n)) = ?P"
    by (simp add: deeper_than_def fun_eq_iff)
  have rem: "take i ?cs @ dropWhile ?P (drop (i + 1) ?cs) = remaining_nodes i st"
    by (simp add: remaining_nodes_def descendant_run_def dropWhile_as_drop[of ?P] add.commute add.left_commute)
  have req: "(requests st @ map (\<lambda>n. DELETE_comment (parseInt (node_data_comment_id (replyBox st) n)))
                 (takeWhile ?P (drop (i + 1) ?cs))) @
              [DELETE_comment (parseInt (node_data_comment_id (replyBox st) (?cs ! i)))]
             = requests st @ delete_requests i st"
    by (simp add: delete_requests_def descendant_run_def)
  show ?thesis
    unfolding deleteChildrenComments_def Let_def delete_walk_eq P prod.case rem req
    by (simp add: displayCommentReply_top compose_new_def)
qed


lemmas js_eval = parseInt_def slice_0_m2_def is_space_def is_digit_def digits_value_def digit_val_def
  String_of_int_def show_nat.simps digit_char_def indent_of_def

lemma deeper_than_levels:
  assumes "marginLeft a = show_nat (la * 10) @ ''px''" "marginLeft b = show_nat (lb * 10) @ ''px''"
  shows "deeper_than rb (CommentBox a) (CommentBox b) = (la < lb)"
  using assms by (simp add: deeper_than_def indent_of_def slice_px parseInt_show_nat)







text \<open>
  Claim C10. When the sibling right after the target has a \<open>marginLeft\<close> that does not parse to
  a number (the reply box, which has no \<open>marginLeft\<close>, is such a sibling), the walk stops at
  once: only the target is removed and only its \<open>DELETE\<close> is sent; that sibling and every
  node after it stay in the list, and the main reply button is shown.
\<close>

theorem deleteChildrenComments_stops_at_replyBox:
  assumes "i + 1 < length (threadComments st)"
    and "threadComments st ! (i + 1) = ReplyBox \<and> reply_marginLeft (replyBox st) = []
         \<or> indent_of (replyBox st) (threadComments st ! (i + 1)) = None"
  shows "deleteChildrenComments i st =
     Returned (st\<lparr>threadComments := take i (threadComments st) @ drop (i + 1) (threadComments st),
                  requests := requests st @
                    [DELETE_comment (parseInt (node_data_comment_id (replyBox st) (threadComments st ! i)))],
                  threadMainReply_display := ''inline-block''\<rparr>)"
proof -
  let ?cs = "threadComments st"
  have nan: "indent_of (replyBox st) (?cs ! (i + 1)) = None"
    using assms(2) by (auto simp: indent_of_def slice_0_m2_def parseInt_empty)
  obtain x xs where d: "drop (i + 1) ?cs = x # xs" and x: "x = ?cs ! (i + 1)"
    using assms(1) by (metis Cons_nth_drop_Suc)
  have "\<not> deeper_than (replyBox st) (?cs ! i) x"
    using nan x by (cases "indent_of (replyBox st) (?cs ! i)") (simp_all add: deeper_than_def)
  then have run: "descendant_run i st = []"
    using d by (simp add: descendant_run_def)
  have rem: "remaining_nodes i st = take i ?cs @ drop (i + 1) ?cs"
    by (simp add: remaining_nodes_def run)
  have ne: "remaining_nodes i st \<noteq> []"
    unfolding rem using d by simp
  have "deleteChildrenComments i st =
      Returned (st\<lparr>threadComments := remaining_nodes i st,
                   requests := requests st @ delete_requests i st,
                   threadMainReply_display := ''inline-block''\<rparr>)"
    unfolding deleteChildrenComments_eq using ne by simp
  also have "remaining_nodes i st = take i ?cs @ drop (i + 1) ?cs"
    by (rule rem)
  also have "delete_requests i st =
      [DELETE_comment (parseInt (node_data_comment_id (replyBox st) (?cs ! i)))]"
    by (simp add: delete_requests_def run)
  finally show ?thesis .
qed

theorem deleteChildrenComments_stops_at_replyBox_witness:
  "deleteChildrenComments 0
     (example_ui [CommentBox (example_box 1 None 0), ReplyBox, CommentBox (example_box 2 (Some 1) 1)] ''false'') =
   Returned
     ((example_ui [CommentBox (example_box 1 None 0), ReplyBox, CommentBox (example_box 2 (Some 1) 1)] ''false'')
        \<lparr>threadComments := [ReplyBox, CommentBox (example_box 2 (Some 1) 1)],
         requests := [DELETE_comment (Some 1)],
         threadMainReply_display := ''inline-block''\<rparr>)"
proof -
  let ?st = "example_ui [CommentBox (example_box 1 None 0), ReplyBox, CommentBox (example_box 2 (Some 1) 1)] ''false''"
  have a: "0 + 1 < length (threadComments ?st)" by (simp add: example_ui_def)
  have b: "threadComments ?st ! (0 + 1) = ReplyBox \<and> reply_marginLeft (replyBox ?st) = []
         \<or> indent_of (replyBox ?st) (threadComments ?st ! (0 + 1)) = None"
    by (simp add: example_ui_def example_replyBox_def)
  have c: "parseInt (node_data_comment_id (replyBox ?st) (threadComments ?st ! 0)) = Some 1"
    by (simp add: example_ui_def example_box_def js_eval)
  show ?thesis
    using deleteChildrenComments_stops_at_replyBox[OF a b] unfolding c
    by (simp add: example_ui_def)
qed

text \<open>
  The three branches that end \<open>deleteChildrenComments\<close> go by the children that are left in
  the list, the reply box among them: when no child is left and the thread is unlocked, the
  reply box is put into the list, set up for a new top-level comment, and the main reply
  button is hidden; when no child is left and the thread is locked, the main reply button is
  hidden and the list stays empty; in every other case the main reply button is shown.
\<close>

lemma deleteChildrenComments_reply_affordance:
  "\<exists>st'. deleteChildrenComments i st = Returned st'
     \<and> (remaining_nodes i st = [] \<and> data_is_locked st = ''false'' \<longrightarrow>
          threadComments st' = [ReplyBox] \<and> replyBox st' = compose_new (replyBox st)
          \<and> threadCommentInput st' = [] \<and> threadMainReply_display st' = ''none'')
     \<and> (remaining_nodes i st = [] \<and> data_is_locked st = ''true'' \<longrightarrow>
          threadComments st' = [] \<and> replyBox st' = replyBox st
          \<and> threadMainReply_display st' = ''none'')
     \<and> (\<not> (remaining_nodes i st = [] \<and> data_is_locked st = ''false'')
        \<and> \<not> (remaining_nodes i st = [] \<and> data_is_locked st = ''true'') \<longrightarrow>
          threadComments st' = remaining_nodes i st \<and> replyBox st' = replyBox st
          \<and> threadMainReply_display st' = ''inline-block'')"
  unfolding deleteChildrenComments_eq by auto

lemma deleteChildrenComments_reply_affordance_example:
  "(\<exists>st'. deleteChildrenComments 0 (example_ui [CommentBox (example_box 1 None 0)] ''false'') = Returned st'
      \<and> threadComments st' = [ReplyBox] \<and> replyBox st' = compose_new example_replyBox
      \<and> threadCommentInput st' = [] \<and> threadMainReply_display st' = ''none'')
   \<and> (\<exists>st'. deleteChildrenComments 0 (example_ui [CommentBox (example_box 1 None 0)] ''true'') = Returned st'
      \<and> threadComments st' = [] \<and> replyBox st' = example_replyBox
      \<and> threadMainReply_display st' = ''none'')
   \<and> (\<exists>st'. deleteChildrenComments 1 (example_ui example_thread ''false'') = Returned st'
      \<and> threadComments st' =
            [CommentBox (example_box 1 None 0), CommentBox (example_box 4 (Some 1) 1),
             CommentBox (example_box 5 None 0)]
      \<and> threadMainReply_display st' = ''inline-block'')"
proof -
  let ?one = "[CommentBox (example_box 1 None 0)]"
  have r1: "remaining_nodes 0 (example_ui ?one l) = []" for l
    by (simp add: remaining_nodes_def descendant_run_def example_ui_def)
  have run: "descendant_run 1 (example_ui example_thread ''false'') = [CommentBox (example_box 3 (Some 2) 2)]"
    by (simp add: descendant_run_def example_ui_def example_thread_def deeper_than_def
        example_box_def js_eval)
  have r3: "remaining_nodes 1 (example_ui example_thread ''false'') =
      [CommentBox (example_box 1 None 0), CommentBox (example_box 4 (Some 1) 1),
       CommentBox (example_box 5 None 0)]"
    unfolding remaining_nodes_def run by (simp add: example_ui_def example_thread_def)
  have l: "data_is_locked (example_ui cs l) = l" "replyBox (example_ui cs l) = example_replyBox" for cs l
    by (simp_all add: example_ui_def)
  show ?thesis
    using deleteChildrenComments_reply_affordance[of 0 "example_ui ?one ''false''"]
      deleteChildrenComments_reply_affordance[of 0 "example_ui ?one ''true''"]
      deleteChildrenComments_reply_affordance[of 1 "example_ui example_thread ''false''"]
    unfolding r1 r3 l by auto
qed

lemma one_rendered:
  "displayComments (Suc 0) 100000 ''42'' (Inr [example_comments ! 0]) (example_ui [] ''false'') =
     Some ((example_ui [] ''false'')
        \<lparr>threadComments := [CommentBox (rendered_box (example_comments ! 0) 0 ''1 minute ago'' ''like'')],
          requests := [GET_comments ''42'', GET_user 7],
          threadMainReply_display := ''inline-block''\<rparr>)"
  unfolding displayComments_def displayComments_response_def displayComments_request_def
    sum.case Let_def
  by (simp add: example_comments_def example_ui_def rendered_box_def displayCommentDOM_def
      upt_rec[of 0] upt_rec[of 1] dateString_def includes_userId_def js_eval)

text \<open>
  Claim C7. After a cascading delete, when the comment list is empty and the thread is
  unlocked, the reply box is shown set up for a new top-level comment and the main reply
  button is hidden. The code does not do so when the reply box stands in the list: the test is
  on the number of children of the list, and the reply box is one of them (the same three
  branches in \<open>displayComments\<close> test the number of fetched comments). One comment is
  rendered in an unlocked thread, its reply link is clicked and then its delete link: no
  comment is left, yet the main reply button is shown and the reply box is still a reply to
  comment 1, padded ten pixels.
\<close>

theorem delete_after_reply_keeps_stale_reply_box:
  "\<exists>st1 st2 st3.
      displayComments (Suc 0) 100000 ''42'' (Inr [example_comments ! 0]) (example_ui [] ''false'') = Some st1
    \<and> threadComments st1 = [CommentBox (rendered_box (example_comments ! 0) 0 ''1 minute ago'' ''like'')]
    \<and> threadComments_click reply 0 st1 = Returned st2
    \<and> threadComments st2 =
          [CommentBox (rendered_box (example_comments ! 0) 0 ''1 minute ago'' ''like''), ReplyBox]
    \<and> threadComments_click delete 0 st2 = Returned st3
    \<and> boxes (threadComments st3) = []
    \<and> data_is_locked st3 = ''false''
    \<and> threadComments st3 = [ReplyBox]
    \<and> threadMainReply_display st3 = ''inline-block''
    \<and> reply_data_parent_comment_id (replyBox st3) = ''1''
    \<and> reply_paddingLeft (replyBox st3) = ''10px''
    \<and> replyBox st3 \<noteq> compose_new (replyBox st2)
    \<and> requests st3 = [GET_comments ''42'', GET_user 7, DELETE_comment (Some 1)]"
proof -
  let ?b = "CommentBox (rendered_box (example_comments ! 0) 0 ''1 minute ago'' ''like'')"
  define st1 where "st1 = (example_ui [] ''false'')
        \<lparr>threadComments := [?b], requests := [GET_comments ''42'', GET_user 7],
          threadMainReply_display := ''inline-block''\<rparr>"
  define st2 where "st2 = st1\<lparr>replyBox := example_replyBox\<lparr>reply_data_comment_id := ''1'',
                 reply_data_parent_comment_id := ''1'', reply_paddingLeft := ''10px''\<rparr>,
               threadComments := [?b, ReplyBox]\<rparr>"
  define st3 where "st3 = st2\<lparr>threadComments := [ReplyBox],
                     requests := [GET_comments ''42'', GET_user 7, DELETE_comment (Some 1)],
                     threadMainReply_display := ''inline-block''\<rparr>"
  have p: "displayComments (Suc 0) 100000 ''42'' (Inr [example_comments ! 0]) (example_ui [] ''false'') = Some st1"
    unfolding st1_def by (rule one_rendered)
  have r: "threadComments_click reply 0 st1 = Returned st2"
    unfolding st2_def st1_def
    by (simp add: threadComments_click_def example_ui_def unhideComments_def rendered_box_def
        example_comments_def id_of_attribute_def displayCommentReply_def appendChild_replyBox_def
        insertBefore_replyBox_def set_paddingLeft_def example_replyBox_def js_eval Let_def)
  have f2: "threadComments st2 = [?b, ReplyBox]" "data_is_locked st2 = ''false''"
    "requests st2 = [GET_comments ''42'', GET_user 7]"
    "replyBox st2 = example_replyBox\<lparr>reply_data_comment_id := ''1'',
                 reply_data_parent_comment_id := ''1'', reply_paddingLeft := ''10px''\<rparr>"
    by (simp_all add: st2_def st1_def example_ui_def)
  have run: "descendant_run 0 st2 = []"
    unfolding descendant_run_def f2
    by (simp add: deeper_than_def example_replyBox_def rendered_box_def js_eval)
  have rem: "remaining_nodes 0 st2 = [ReplyBox]"
    unfolding remaining_nodes_def run f2 by simp
  have req: "delete_requests 0 st2 = [DELETE_comment (Some 1)]"
    unfolding delete_requests_def run f2
    by (simp add: rendered_box_def example_comments_def js_eval)
  have del: "deleteChildrenComments 0 st2 = Returned st3"
    unfolding deleteChildrenComments_eq rem req st3_def f2 by simp
  have d: "threadComments_click delete 0 st2 = Returned st3"
    unfolding threadComments_click_def f2 del by simp
  have f3: "threadComments st3 = [ReplyBox]" "data_is_locked st3 = ''false''"
    "threadMainReply_display st3 = ''inline-block''" "replyBox st3 = replyBox st2"
    "requests st3 = [GET_comments ''42'', GET_user 7, DELETE_comment (Some 1)]"
    by (simp_all add: st3_def f2)
  have f1: "threadComments st1 = [?b]" by (simp add: st1_def)
  have rb: "reply_data_parent_comment_id (replyBox st3) = ''1''"
    "reply_paddingLeft (replyBox st3) = ''10px''" "replyBox st3 \<noteq> compose_new (replyBox st2)"
    unfolding f3 f2 by (simp_all add: example_replyBox_def compose_new_def)
  show ?thesis
    using p f1 r f2(1) d f3 rb by (intro exI[of _ st1] exI[of _ st2] exI[of _ st3]) simp
qed

text \<open>
  Claim C9. While the thread is locked, a click on the delete link of a comment is refused:
  the listener shows the popup \<open>thread is locked\<close> and returns, so the comment list is as it
  was and no request has been sent.
\<close>

theorem locked_delete_refused:
  assumes "data_is_locked st = ''true''" and "i < length (threadComments st)"
  shows "threadComments_click delete i st = Returned (showErrorPopUp ''thread is locked'' st)
     \<and> errorPopUp (showErrorPopUp ''thread is locked'' st) = Some ''thread is locked''
     \<and> threadComments (showErrorPopUp ''thread is locked'' st) = threadComments st
     \<and> requests (showErrorPopUp ''thread is locked'' st) = requests st"
  using assms by (simp add: threadComments_click_def showErrorPopUp_def)

theorem locked_delete_refused_witness:
  "threadComments_click delete 1 (example_ui example_thread ''true'') =
     Returned ((example_ui example_thread ''true'')\<lparr>errorPopUp := Some ''thread is locked''\<rparr>)"
proof -
  let ?st = "example_ui example_thread ''true''"
  have a: "data_is_locked ?st = ''true''" by (simp add: example_ui_def)
  have b: "1 < length (threadComments ?st)" by (simp add: example_ui_def example_thread_def)
  show ?thesis
    using locked_delete_refused[OF a b]
    by (simp add: showErrorPopUp_def)
qed

subsection \<open>Placing the reply box\<close>




lemma indent_of_unhide: "indent_of rb (unhide n) = indent_of rb n"
  by (cases n) (simp_all add: indent_of_def)





lemma boxes_removeAll: "boxes (removeAll ReplyBox children) = boxes children"
  by (induction children rule: boxes.induct) simp_all

lemma boxes_append: "boxes (xs @ ys) = boxes xs @ boxes ys"
  by (induction xs rule: boxes.induct) simp_all





subsection \<open>Hidden comments\<close>

































subsection \<open>The scenario of the spec, evaluated\<close>

lemma sorted_example: "sort_key (\<lambda>c. - createdAt c) example_comments =
   [example_comments ! 2, example_comments ! 1, example_comments ! 0]"
  by (simp add: example_comments_def)

lemma example_render:
  "displayComments (Suc (Suc (Suc 0))) 100000 ''42'' (Inr example_comments) (example_ui [ReplyBox] ''false'') =
     Some ((example_ui [ReplyBox] ''false'')
        \<lparr>threadComments :=
           [CommentBox (rendered_box (example_comments ! 2) 0 ''1 minute ago'' ''like''),
            CommentBox (rendered_box (example_comments ! 0) 0 ''1 minute ago'' ''like''),
            CommentBox (rendered_box (example_comments ! 1) 1 ''1 minute ago'' ''unlike'')],
          requests := [GET_comments ''42'', GET_user 7, GET_user 7, GET_user 8],
          threadMainReply_display := ''inline-block''\<rparr>)"
  unfolding displayComments_def displayComments_response_def displayComments_request_def
    sum.case Let_def sorted_example
  by (simp add: example_comments_def example_ui_def rendered_box_def displayCommentDOM_def
      upt_rec[of 0] upt_rec[of 1] upt_rec[of 2] upt_rec[of 3] dateString_def includes_userId_def
      js_eval)




subsection \<open>One call of \<open>displayCommentRecursive\<close>\<close>

lemma append_rendered_Nil: "append_rendered now [] st = st"
  by (simp add: append_rendered_def)

lemma append_rendered_append:
  "append_rendered now ys (append_rendered now xs st) = append_rendered now (xs @ ys) st"
  by (simp add: append_rendered_def)

lemma forEach_those:
  assumes "\<And>x t. x \<in> set xs \<Longrightarrow> body x t = map_option (\<lambda>ys. append_rendered now ys t) (g x)"
  shows "forEach body xs s = map_option (\<lambda>yss. append_rendered now (concat yss) s) (those (map g xs))"
  using assms
proof (induction xs arbitrary: s)
  case Nil
  then show ?case by (simp add: append_rendered_Nil)
next
  case (Cons x xs)
  show ?case
  proof (cases "g x")
    case None
    then show ?thesis using Cons.prems[of x s] by simp
  next
    case (Some ys)
    have b: "body x s = Some (append_rendered now ys s)"
      using Cons.prems[of x s] Some by simp
    have "forEach body xs (append_rendered now ys s) =
        map_option (\<lambda>yss. append_rendered now (concat yss) (append_rendered now ys s)) (those (map g xs))"
      by (rule Cons.IH) (simp add: Cons.prems)
    then show ?thesis
      by (simp add: b Some append_rendered_append option.map_comp comp_def)
  qed
qed

lemma those_filter_concat:
  "map_option concat (those (map (\<lambda>d. if P d then R d else Some []) ds)) =
   map_option concat (those (map R (filter P ds)))"
proof (induction ds)
  case Nil
  then show ?case by simp
next
  case (Cons d ds)
  show ?case
  proof (cases "P d")
    case False
    with Cons show ?thesis
      by (cases "those (map (\<lambda>d. if P d then R d else Some []) ds)";
          cases "those (map R (filter P ds))") simp_all
  next
    case True
    with Cons show ?thesis
      by (cases "R d"; cases "those (map (\<lambda>d. if P d then R d else Some []) ds)";
          cases "those (map R (filter P ds))") simp_all
  qed
qed

lemma displayCommentDOM_append:
  "displayCommentDOM (commentId c) (parentCommentId c) (creatorId c) (length (likes c))
     (includes_userId (likes c) (localStorage_userId s)) (dateString (now - createdAt c)) (content c) k s
   = append_rendered now [(c, k)] s"
  by (simp add: displayCommentDOM_def append_rendered_def render_box_def rendered_box_def Let_def)

lemma displayCommentRecursive_render_order:
  assumes "j < length comments" "p = parentCommentId (comments ! j)"
  shows "displayCommentRecursive fuel now k comments j p s =
         map_option (\<lambda>xs. append_rendered now xs s) (render_order fuel comments k (comments ! j))"
  using assms
proof (induction fuel arbitrary: k j p s)
  case 0
  then show ?case by simp
next
  case (Suc fuel)
  let ?c = "comments ! j"
  let ?P = "\<lambda>d. parentCommentId d = Some (commentId ?c)"
  let ?R = "render_order fuel comments (Suc k)"
  let ?g = "\<lambda>x. if ?P (comments ! x) then ?R (comments ! x) else Some []"
  let ?body = "\<lambda>newIndex s. if parentCommentId (comments ! newIndex) = Some (commentId ?c)
       then displayCommentRecursive fuel now (k + 1) comments newIndex (Some (commentId ?c)) s
       else Some s"
  have body: "?body x t = map_option (\<lambda>ys. append_rendered now ys t) (?g x)"
    if "x \<in> set [0..<length comments]" for x t
  proof (cases "parentCommentId (comments ! x) = Some (commentId ?c)")
    case True
    then show ?thesis
      using that Suc.IH[of x "Some (commentId ?c)" "k + 1" t] by simp
  next
    case False
    then show ?thesis by (simp add: append_rendered_Nil)
  qed
  have "displayCommentRecursive (Suc fuel) now k comments j p s =
      forEach ?body [0..<length comments] (append_rendered now [(?c, k)] s)"
    using Suc.prems(2) by (simp add: Let_def displayCommentDOM_append)
  also have "\<dots> = map_option (\<lambda>yss. append_rendered now (concat yss) (append_rendered now [(?c, k)] s))
      (those (map ?g [0..<length comments]))"
    by (rule forEach_those[OF body])
  also have "\<dots> = map_option (\<lambda>ys. append_rendered now ((?c, k) # ys) s)
      (map_option concat (those (map ?g [0..<length comments])))"
    by (simp add: append_rendered_append option.map_comp comp_def)
  also have "map ?g [0..<length comments] = map (\<lambda>d. if ?P d then ?R d else Some []) comments"
    by (rule nth_equalityI) simp_all
  also have "map_option concat (those (map (\<lambda>d. if ?P d then ?R d else Some []) comments)) =
      map_option concat (those (map ?R (filter ?P comments)))"
    by (rule those_filter_concat)
  finally show ?case
    by (simp add: option.map_comp comp_def)
qed

subsection \<open>The pass as a whole\<close>

lemma displayComments_response_render_pass:
  "displayComments_response fuel now (Inr fetched) st0 =
     map_option (\<lambda>xs. reply_affordance (length fetched) (append_rendered now xs st0))
       (render_pass fuel (sort_key (\<lambda>c. - createdAt c) fetched))"
proof -
  let ?cs = "sort_key (\<lambda>c. - createdAt c) fetched"
  let ?P = "\<lambda>c. parentCommentId c = None"
  let ?R = "render_order fuel ?cs 0"
  let ?g = "\<lambda>x. if ?P (?cs ! x) then ?R (?cs ! x) else Some []"
  let ?body = "\<lambda>index s. if parentCommentId (?cs ! index) = None
                 then displayCommentRecursive fuel now 0 ?cs index None s else Some s"
  have body: "?body x t = map_option (\<lambda>ys. append_rendered now ys t) (?g x)"
    if "x \<in> set [0..<length ?cs]" for x t
  proof (cases "parentCommentId (?cs ! x) = None")
    case True
    then show ?thesis
      using that displayCommentRecursive_render_order[of x ?cs None fuel now 0 t] by simp
  next
    case False
    then have "?body x t = Some t" "?g x = Some []" by (simp_all only: if_False)
    then show ?thesis by (simp only: option.map append_rendered_Nil)
  qed
  have "forEach ?body [0..<length ?cs] st0 =
      map_option (\<lambda>yss. append_rendered now (concat yss) st0) (those (map ?g [0..<length ?cs]))"
    by (rule forEach_those[OF body])
  also have "\<dots> = map_option (\<lambda>ys. append_rendered now ys st0)
      (map_option concat (those (map ?g [0..<length ?cs])))"
    by (simp add: option.map_comp comp_def)
  also have "map ?g [0..<length ?cs] = map (\<lambda>d. if ?P d then ?R d else Some []) ?cs"
    by (rule nth_equalityI) simp_all
  also have "map_option concat (those (map (\<lambda>d. if ?P d then ?R d else Some []) ?cs)) =
      render_pass fuel ?cs"
    unfolding render_pass_def by (rule those_filter_concat)
  finally have loop: "forEach ?body [0..<length ?cs] st0 =
      map_option (\<lambda>ys. append_rendered now ys st0) (render_pass fuel ?cs)" .
  have fin: "(if length ?cs = 0 \<and> data_is_locked st1 = ''false''
         then (case displayCommentReply Null Null [] False st1 of
                 Returned st2 \<Rightarrow> Some (st2\<lparr>threadMainReply_display := ''none''\<rparr>)
               | Threw st2 \<Rightarrow> Some (showErrorPopUp ''TypeError'' st2))
         else if length ?cs = 0 \<and> data_is_locked st1 = ''true''
         then Some (st1\<lparr>threadMainReply_display := ''none''\<rparr>)
         else Some (st1\<lparr>threadMainReply_display := ''inline-block''\<rparr>))
       = Some (reply_affordance (length fetched) st1)" for st1
    by (simp add: reply_affordance_def displayCommentReply_top compose_new_def)
  show ?thesis
    unfolding displayComments_response_def Let_def sum.case loop fin
    by (cases "render_pass fuel ?cs") simp_all
qed

lemma displayComments_render_pass:
  "displayComments fuel now threadId (Inr fetched) st =
     map_option
       (\<lambda>xs. reply_affordance (length fetched)
              (append_rendered now xs
                 (st\<lparr>threadComments := [], requests := requests st @ [GET_comments threadId]\<rparr>)))
       (render_pass fuel (sort_key (\<lambda>c. - createdAt c) fetched))"
  unfolding displayComments_def displayComments_response_render_pass
  by (simp add: displayComments_request_def)

lemma those_list_all2:
  "those (map R ds) = Some yss \<longleftrightarrow> list_all2 (\<lambda>d ys. R d = Some ys) ds yss"
proof (induction ds arbitrary: yss)
  case Nil
  then show ?case by auto
next
  case (Cons d ds)
  show ?case
  proof (cases "R d")
    case None
    then show ?thesis by (auto simp: list_all2_Cons1)
  next
    case (Some y)
    then show ?thesis
      using Cons.IH by (cases "those (map R ds)") (auto simp: list_all2_Cons1)
  qed
qed

lemma those_total:
  assumes "\<And>d. d \<in> set ds \<Longrightarrow> \<exists>ys. R d = Some ys"
  shows "\<exists>yss. those (map R ds) = Some yss"
  using assms
proof (induction ds)
  case Nil
  then show ?case by simp
next
  case (Cons d ds)
  then obtain ys yss where "R d = Some ys" "those (map R ds) = Some yss"
    by (metis list.set_intros(1,2))
  then show ?case by simp
qed

lemma in_concat_all2:
  assumes "list_all2 Q ds yss" "z \<in> set (concat yss)"
  obtains d ys where "d \<in> set ds" "Q d ys" "z \<in> set ys"
  using assms by (induction rule: list_all2_induct) auto

subsection \<open>Depth\<close>

lemma depth_rel_unique:
  assumes "distinct (map commentId comments)"
  shows "depth_rel comments c k \<Longrightarrow> depth_rel comments c k' \<Longrightarrow> k = k'"
proof (induction arbitrary: k' rule: depth_rel.induct)
  case (root c)
  then show ?case by (auto elim: depth_rel.cases)
next
  case (child c p d k)
  from child.prems child.hyps(1) obtain d' j
    where d': "d' \<in> set comments" "commentId d' = p" "depth_rel comments d' j" "k' = Suc j"
    by (auto elim: depth_rel.cases)
  have "inj_on commentId (set comments)"
    using assms by (simp add: distinct_map)
  then have "d' = d"
    using d'(1,2) child.hyps(2,3) by (auto dest: inj_onD)
  with child.IH d' show ?case by simp
qed

lemma depth_rel_levels:
  "depth_rel comments c k \<Longrightarrow> c \<in> set comments \<Longrightarrow> j \<le> k \<Longrightarrow>
   \<exists>d \<in> set comments. depth_rel comments d j"
proof (induction arbitrary: j rule: depth_rel.induct)
  case (root c)
  then show ?case using depth_rel.root by auto
next
  case (child c p d k)
  show ?case
  proof (cases "j = Suc k")
    case True
    then show ?thesis
      using depth_rel.child[OF child.hyps] child.prems(1) by auto
  next
    case False
    then have "j \<le> k" using child.prems(2) by simp
    then show ?thesis using child.IH child.hyps(2) by simp
  qed
qed

lemma depth_rel_bound:
  assumes dist: "distinct (map commentId comments)"
    and d: "depth_rel comments c k" and c: "c \<in> set comments"
  shows "k < length comments"
proof -
  have "\<forall>j \<in> {..k}. \<exists>d. d \<in> set comments \<and> depth_rel comments d j"
    using depth_rel_levels[OF d c] by auto
  then obtain f where f: "\<forall>j \<in> {..k}. f j \<in> set comments \<and> depth_rel comments (f j) j"
    by (rule bchoice[THEN exE])
  have "inj_on f {..k}"
  proof (rule inj_onI)
    fix a b
    assume ab: "a \<in> {..k}" "b \<in> {..k}" "f a = f b"
    have "depth_rel comments (f a) a" using f ab(1) by blast
    moreover have "depth_rel comments (f b) b" using f ab(2) by blast
    ultimately have "depth_rel comments (f a) a" "depth_rel comments (f a) b"
      using ab(3) by simp_all
    then show "a = b" by (rule depth_rel_unique[OF dist])
  qed
  moreover have "f ` {..k} \<subseteq> set comments" using f by auto
  ultimately have "card {..k} \<le> card (set comments)"
    by (meson List.finite_set card_inj_on_le)
  then have "Suc k \<le> card (set comments)" by simp
  also have "\<dots> \<le> length comments" by (rule card_length)
  finally show ?thesis by simp
qed

lemma depth_rel_set_cong:
  assumes "set comments' = set comments"
  shows "depth_rel comments c k \<Longrightarrow> depth_rel comments' c k"
proof (induction rule: depth_rel.induct)
  case (root c)
  then show ?case by (rule depth_rel.root)
next
  case (child c p d k)
  show ?case
  proof (rule depth_rel.child)
    show "parentCommentId c = Some p" by (rule child.hyps(1))
    show "d \<in> set comments'" using child.hyps(2) assms by simp
    show "commentId d = p" by (rule child.hyps(3))
    show "depth_rel comments' d k" by (rule child.IH)
  qed
qed

lemma render_order_depth:
  assumes "render_order fuel comments k c = Some xs" "c \<in> set comments" "depth_rel comments c k"
  shows "\<forall>(d, m) \<in> set xs. d \<in> set comments \<and> depth_rel comments d m"
  using assms
proof (induction fuel arbitrary: k c xs)
  case 0
  then show ?case by simp
next
  case (Suc fuel)
  let ?children = "filter (\<lambda>d. parentCommentId d = Some (commentId c)) comments"
  from Suc.prems(1) obtain subs
    where subs: "those (map (render_order fuel comments (Suc k)) ?children) = Some subs"
      and xs: "xs = (c, k) # concat subs"
    by auto
  have all2: "list_all2 (\<lambda>d ys. render_order fuel comments (Suc k) d = Some ys) ?children subs"
    using subs by (simp add: those_list_all2)
  have "d \<in> set comments \<and> depth_rel comments d m" if "(d, m) \<in> set (concat subs)" for d m
  proof -
    from all2 that obtain e ys where e: "e \<in> set ?children"
      "render_order fuel comments (Suc k) e = Some ys" "(d, m) \<in> set ys"
      by (rule in_concat_all2)
    have "depth_rel comments e (Suc k)"
      using e(1) Suc.prems(2,3) by (auto intro: depth_rel.child)
    with Suc.IH[OF e(2)] e(1,3) show ?thesis by auto
  qed
  then show ?case using xs Suc.prems(2,3) by auto
qed

lemma render_order_total:
  assumes "distinct (map commentId comments)" "c \<in> set comments" "depth_rel comments c k"
    and "length comments \<le> fuel + k"
  shows "\<exists>xs. render_order fuel comments k c = Some xs"
  using assms(2,3,4)
proof (induction fuel arbitrary: k c)
  case 0
  then show ?case using depth_rel_bound[OF assms(1), of c k] by simp
next
  case (Suc fuel)
  let ?children = "filter (\<lambda>d. parentCommentId d = Some (commentId c)) comments"
  have "\<exists>ys. render_order fuel comments (Suc k) d = Some ys" if "d \<in> set ?children" for d
  proof (rule Suc.IH)
    show "d \<in> set comments" using that by simp
    show "depth_rel comments d (Suc k)"
      using that Suc.prems(1,2) by (auto intro: depth_rel.child)
    show "length comments \<le> fuel + Suc k" using Suc.prems(3) by simp
  qed
  then obtain subs where "those (map (render_order fuel comments (Suc k)) ?children) = Some subs"
    using those_total by blast
  then show ?case by simp
qed

lemma render_pass_total:
  assumes "distinct (map commentId comments)" "length comments \<le> fuel"
  shows "\<exists>xs. render_pass fuel comments = Some xs"
proof -
  have "\<exists>ys. render_order fuel comments 0 c = Some ys"
    if "c \<in> set (filter (\<lambda>c. parentCommentId c = None) comments)" for c
    using that assms render_order_total[OF assms(1), of c 0 fuel]
    by (auto intro: depth_rel.root)
  then obtain subs where
    "those (map (render_order fuel comments 0) (filter (\<lambda>c. parentCommentId c = None) comments)) = Some subs"
    using those_total by blast
  then show ?thesis by (simp add: render_pass_def)
qed

lemma render_pass_depth:
  assumes "render_pass fuel comments = Some xs"
  shows "\<forall>(d, m) \<in> set xs. d \<in> set comments \<and> depth_rel comments d m"
proof -
  let ?roots = "filter (\<lambda>c. parentCommentId c = None) comments"
  from assms obtain subs where subs: "those (map (render_order fuel comments 0) ?roots) = Some subs"
    and xs: "xs = concat subs"
    by (auto simp: render_pass_def)
  have all2: "list_all2 (\<lambda>d ys. render_order fuel comments 0 d = Some ys) ?roots subs"
    using subs by (simp add: those_list_all2)
  have "d \<in> set comments \<and> depth_rel comments d m" if "(d, m) \<in> set (concat subs)" for d m
  proof -
    from all2 that obtain e ys where e: "e \<in> set ?roots"
      "render_order fuel comments 0 e = Some ys" "(d, m) \<in> set ys"
      by (rule in_concat_all2)
    have "depth_rel comments e 0" using e(1) by (auto intro: depth_rel.root)
    with render_order_depth[OF e(2)] e(1,3) show ?thesis by auto
  qed
  then show ?thesis using xs by auto
qed

lemma boxes_map_CommentBox: "boxes (map CommentBox bs) = bs"
  by (induction bs) simp_all

lemma boxes_reply_affordance:
  "boxes (threadComments (reply_affordance n st)) = boxes (threadComments st)"
  by (simp add: reply_affordance_def boxes_removeAll)

lemma boxes_append_rendered:
  "boxes (threadComments (append_rendered now xs st)) =
   boxes (threadComments st) @ map (\<lambda>(c, k). render_box now (localStorage_userId st) c k) xs"
proof -
  have "boxes (map (\<lambda>(c, level). CommentBox (render_box now u c level)) xs) =
        map (\<lambda>(c, k). render_box now u c k) xs" for u
    by (induction xs) auto
  then show ?thesis
    by (simp add: append_rendered_def boxes_append)
qed

lemma distinct_ids_sort:
  "distinct (map commentId (sort_key f comments)) = distinct (map commentId comments)"
  by (simp add: distinct_map)

lemma displayComments_boxes:
  assumes "distinct (map commentId fetched)" "length fetched \<le> fuel"
  obtains st' xs where "displayComments fuel now threadId (Inr fetched) st = Some st'"
    and "render_pass fuel (sort_key (\<lambda>c. - createdAt c) fetched) = Some xs"
    and "boxes (threadComments st') = map (\<lambda>(c, k). render_box now (localStorage_userId st) c k) xs"
proof -
  let ?cs = "sort_key (\<lambda>c. - createdAt c) fetched"
  obtain xs where xs: "render_pass fuel ?cs = Some xs"
    using render_pass_total[of ?cs fuel] assms by (auto simp: distinct_ids_sort)
  show ?thesis
  proof (rule that[OF _ xs])
    show "displayComments fuel now threadId (Inr fetched) st =
      Some (reply_affordance (length fetched) (append_rendered now xs
        (st\<lparr>threadComments := [], requests := requests st @ [GET_comments threadId]\<rparr>)))"
      by (simp add: displayComments_render_pass xs)
    show "boxes (threadComments (reply_affordance (length fetched) (append_rendered now xs
        (st\<lparr>threadComments := [], requests := requests st @ [GET_comments threadId]\<rparr>)))) =
      map (\<lambda>(c, k). render_box now (localStorage_userId st) c k) xs"
      by (simp add: boxes_reply_affordance boxes_append_rendered)
  qed
qed

lemma render_order_head:
  "render_order fuel comments k c = Some ys \<Longrightarrow> (c, k) \<in> set ys"
  by (cases fuel) auto

lemma those_member:
  "those (map R ds) = Some yss \<Longrightarrow> d \<in> set ds \<Longrightarrow> \<exists>ys. R d = Some ys \<and> ys \<in> set yss"
proof (induction ds arbitrary: yss)
  case Nil
  then show ?case by simp
next
  case (Cons a ds)
  then show ?case
    by (cases "R a"; cases "those (map R ds)") auto
qed

lemma those_concat_member:
  "those (map R ds) = Some yss \<Longrightarrow> z \<in> set (concat yss) \<Longrightarrow>
   \<exists>d \<in> set ds. \<exists>ys. R d = Some ys \<and> z \<in> set ys"
proof (induction ds arbitrary: yss)
  case Nil
  then show ?case by simp
next
  case (Cons a ds)
  from Cons.prems(1) obtain y ys' where y: "R a = Some y" "those (map R ds) = Some ys'" "yss = y # ys'"
    by (cases "R a"; cases "those (map R ds)") auto
  from Cons.prems(2) y(3) consider "z \<in> set y" | "z \<in> set (concat ys')" by auto
  then show ?case
  proof cases
    case 1
    then show ?thesis using y(1) by auto
  next
    case 2
    from Cons.IH[OF y(2) 2] show ?thesis by auto
  qed
qed

lemma render_order_closed:
  assumes "render_order fuel comments k0 c0 = Some ys"
  shows "\<forall>(d, k) \<in> set ys. \<forall>e \<in> set comments.
           parentCommentId e = Some (commentId d) \<longrightarrow> (e, Suc k) \<in> set ys"
  using assms
proof (induction fuel arbitrary: k0 c0 ys)
  case 0
  then show ?case by simp
next
  case (Suc fuel)
  let ?children = "filter (\<lambda>d. parentCommentId d = Some (commentId c0)) comments"
  let ?R = "render_order fuel comments (Suc k0)"
  from Suc.prems obtain subs
    where subs: "those (map ?R ?children) = Some subs" and ys: "ys = (c0, k0) # concat subs"
    by auto
  have head: "(e, Suc k0) \<in> set (concat subs)"
    if "e \<in> set comments" "parentCommentId e = Some (commentId c0)" for e
  proof -
    have "e \<in> set ?children" using that by simp
    from those_member[OF subs this] obtain zs where "?R e = Some zs" "zs \<in> set subs" by auto
    with render_order_head[of fuel comments "Suc k0" e zs] show ?thesis by auto
  qed
  have deep: "(e, Suc k) \<in> set (concat subs)"
    if "(d, k) \<in> set (concat subs)" "e \<in> set comments" "parentCommentId e = Some (commentId d)"
    for d k e
  proof -
    from those_concat_member[OF subs that(1)] obtain a zs
      where a: "a \<in> set ?children" "?R a = Some zs" "(d, k) \<in> set zs" by auto
    from Suc.IH[OF a(2)] a(3) that(2,3) have "(e, Suc k) \<in> set zs" by auto
    moreover have "zs \<in> set subs" using those_member[OF subs a(1)] a(2) by auto
    ultimately show ?thesis by auto
  qed
  show ?case
  proof clarify
    fix d k e
    assume dk: "(d, k) \<in> set ys" and e: "e \<in> set comments" "parentCommentId e = Some (commentId d)"
    from dk ys consider "d = c0 \<and> k = k0" | "(d, k) \<in> set (concat subs)" by auto
    then show "(e, Suc k) \<in> set ys"
    proof cases
      case 1
      then show ?thesis using head[of e] e ys by simp
    next
      case 2
      then show ?thesis using deep[of d k e] e ys by simp
    qed
  qed
qed

lemma render_pass_complete:
  assumes "render_pass fuel comments = Some xs"
  shows "depth_rel comments c k \<Longrightarrow> c \<in> set comments \<Longrightarrow> (c, k) \<in> set xs"
proof (induction rule: depth_rel.induct)
  case (root c)
  let ?roots = "filter (\<lambda>c. parentCommentId c = None) comments"
  from assms obtain subs where subs: "those (map (render_order fuel comments 0) ?roots) = Some subs"
    and xs: "xs = concat subs"
    by (auto simp: render_pass_def)
  have "c \<in> set ?roots" using root by simp
  from those_member[OF subs this] obtain zs
    where "render_order fuel comments 0 c = Some zs" "zs \<in> set subs" by auto
  with render_order_head[of fuel comments 0 c zs] show ?case
    unfolding xs by auto
next
  case (child c p d k)
  let ?roots = "filter (\<lambda>c. parentCommentId c = None) comments"
  have dk: "(d, k) \<in> set xs" using child.IH child.hyps(2) by simp
  from assms obtain subs where subs: "those (map (render_order fuel comments 0) ?roots) = Some subs"
    and xs: "xs = concat subs"
    by (auto simp: render_pass_def)
  from those_concat_member[OF subs dk[unfolded xs]] obtain a zs where a: "a \<in> set ?roots"
    "render_order fuel comments 0 a = Some zs" "(d, k) \<in> set zs"
    by auto
  have "(c, Suc k) \<in> set zs"
    using render_order_closed[OF a(2)] a(3) child.prems child.hyps(1,3) by auto
  moreover have "zs \<in> set subs" using those_member[OF subs a(1)] a(2) by auto
  ultimately show ?case unfolding xs by auto
qed


lemma render_box_margin:
  "marginLeft (render_box now u c k) = show_nat (k * 10) @ ''px''
   \<and> indent_of rb (CommentBox (render_box now u c k)) = Some (int (k * 10))
   \<and> data_comment_id (render_box now u c k) = String_of_int (commentId c)"
  by (simp add: render_box_def rendered_box_def indent_of_def slice_px parseInt_show_nat)

lemma depth_rel_cases_explicit:
  assumes "depth_rel comments c k"
  shows "(parentCommentId c = None \<longrightarrow> k = 0)
     \<and> (\<forall>p. parentCommentId c = Some p \<longrightarrow>
          (\<exists>d j. d \<in> set comments \<and> commentId d = p \<and> depth_rel comments d j \<and> k = Suc j))"
  using assms by (cases rule: depth_rel.cases) auto

text \<open>
  Claim C2. For a flat list that forms a forest (unique ids, every chain of parent ids ends at
  a record without parent), a render pass returns, and every comment box it has built is the
  box of a record of the list at the level that equals the record's depth along the
  \<open>parentCommentId\<close> chain, with a left margin of ten pixels per level; every record of the
  list has its box at its depth. The depth is 0 for a record without parent and one more than
  the depth of the parent otherwise.
\<close>

theorem rendered_indent_is_depth:
  assumes "forest fetched" "length fetched \<le> fuel"
  shows "\<exists>st'. displayComments fuel now threadId (Inr fetched) st = Some st'
     \<and> (\<forall>b \<in> set (boxes (threadComments st')).
           \<exists>c k. c \<in> set fetched \<and> depth_rel fetched c k
             \<and> b = render_box now (localStorage_userId st) c k
             \<and> marginLeft b = show_nat (k * 10) @ ''px''
             \<and> indent_of (replyBox st') (CommentBox b) = Some (int (k * 10)))
     \<and> (\<forall>c \<in> set fetched. \<exists>k. depth_rel fetched c k
             \<and> render_box now (localStorage_userId st) c k \<in> set (boxes (threadComments st')))
     \<and> (\<forall>c k. depth_rel fetched c k \<longrightarrow>
           (parentCommentId c = None \<longrightarrow> k = 0)
           \<and> (\<forall>p. parentCommentId c = Some p \<longrightarrow>
                (\<exists>d j. d \<in> set fetched \<and> commentId d = p \<and> depth_rel fetched d j \<and> k = Suc j)))"
proof -
  let ?cs = "sort_key (\<lambda>c. - createdAt c) fetched"
  let ?u = "localStorage_userId st"
  have dist: "distinct (map commentId fetched)" using assms(1) by (simp add: forest_def)
  obtain st' xs where st': "displayComments fuel now threadId (Inr fetched) st = Some st'"
    and xs: "render_pass fuel ?cs = Some xs"
    and bx: "boxes (threadComments st') = map (\<lambda>(c, k). render_box now ?u c k) xs"
    using displayComments_boxes[OF dist assms(2)] by blast
  have set_cs: "set ?cs = set fetched" by simp
  have sound: "\<exists>c k. c \<in> set fetched \<and> depth_rel fetched c k \<and> b = render_box now ?u c k
      \<and> marginLeft b = show_nat (k * 10) @ ''px''
      \<and> indent_of (replyBox st') (CommentBox b) = Some (int (k * 10))"
    if "b \<in> set (boxes (threadComments st'))" for b
  proof -
    from that bx obtain c k where ck: "(c, k) \<in> set xs" "b = render_box now ?u c k" by auto
    from render_pass_depth[OF xs] ck(1) have "c \<in> set ?cs" "depth_rel ?cs c k" by auto
    then have "c \<in> set fetched" "depth_rel fetched c k"
      using depth_rel_set_cong[of fetched ?cs] by simp_all
    then show ?thesis using ck(2) render_box_margin by blast
  qed
  have complete: "\<exists>k. depth_rel fetched c k \<and> render_box now ?u c k \<in> set (boxes (threadComments st'))"
    if "c \<in> set fetched" for c
  proof -
    from assms(1) that obtain k where k: "depth_rel fetched c k" by (auto simp: forest_def)
    then have "depth_rel ?cs c k" using depth_rel_set_cong[of ?cs fetched] by simp
    from render_pass_complete[OF xs this] that have "(c, k) \<in> set xs" by simp
    then have "render_box now ?u c k \<in> set (boxes (threadComments st'))"
      unfolding bx by force
    with k show ?thesis by blast
  qed
  show ?thesis
    using st' sound complete depth_rel_cases_explicit[of fetched] by blast
qed

lemma example_forest: "forest example_comments"
proof -
  have d1: "depth_rel example_comments (example_comments ! 0) 0"
    by (rule depth_rel.root) (simp add: example_comments_def)
  have d3: "depth_rel example_comments (example_comments ! 2) 0"
    by (rule depth_rel.root) (simp add: example_comments_def)
  have d2: "depth_rel example_comments (example_comments ! 1) (Suc 0)"
    by (rule depth_rel.child[OF _ _ _ d1]) (simp_all add: example_comments_def)
  have s: "set example_comments = {example_comments ! 0, example_comments ! 1, example_comments ! 2}"
    by (auto simp: example_comments_def)
  have all: "\<exists>k. depth_rel example_comments c k" if "c \<in> set example_comments" for c
  proof -
    from that have "c = example_comments ! 0 \<or> c = example_comments ! 1 \<or> c = example_comments ! 2"
      unfolding s by (simp only: insert_iff empty_iff) blast
    then show ?thesis using d1 d2 d3 by blast
  qed
  have "distinct (map commentId example_comments)"
    by (simp add: example_comments_def)
  then show ?thesis
    unfolding forest_def using all by blast
qed

theorem rendered_indent_is_depth_witness:
  "forest example_comments \<and> length example_comments \<le> Suc (Suc (Suc 0))
   \<and> (\<exists>st'. displayComments (Suc (Suc (Suc 0))) 100000 ''42'' (Inr example_comments)
               (example_ui [ReplyBox] ''false'') = Some st'
        \<and> map data_comment_id (boxes (threadComments st')) = [''3'', ''1'', ''2'']
        \<and> map marginLeft (boxes (threadComments st')) = [''0px'', ''0px'', ''10px''])"
proof -
  have len: "length example_comments \<le> Suc (Suc (Suc 0))" by (simp add: example_comments_def)
  have vals: "map data_comment_id (boxes (threadComments example_rendered)) = [''3'', ''1'', ''2'']"
    "map marginLeft (boxes (threadComments example_rendered)) = [''0px'', ''0px'', ''10px'']"
    by (simp_all add: example_rendered_def rendered_box_def example_comments_def js_eval)
  show ?thesis
    using rendered_indent_is_depth[OF example_forest len, of 100000 "''42''" "example_ui [ReplyBox] ''false''"]
      example_forest len example_render vals
    unfolding example_rendered_def by auto
qed

text \<open>
  Claim C8. A render pass that returns, run again on the state it has left (the list is cleared
  first), returns again with the same child list: the same boxes with the same margins and
  texts, the reply box in the same place and state, the main reply button as before. A pass
  over a list with unique ids returns when the bound on the nesting is at least the length of
  the list.
\<close>

theorem render_twice_same_DOM:
  "(\<forall>st1. displayComments fuel now threadId (Inr fetched) st = Some st1 \<longrightarrow>
       (\<exists>st2. displayComments fuel now threadId (Inr fetched) st1 = Some st2
          \<and> threadComments st2 = threadComments st1 \<and> replyBox st2 = replyBox st1
          \<and> threadMainReply_display st2 = threadMainReply_display st1))
   \<and> (distinct (map commentId fetched) \<and> length fetched \<le> fuel \<longrightarrow>
       (\<exists>st1. displayComments fuel now threadId (Inr fetched) st = Some st1))"
proof -
  let ?cs = "sort_key (\<lambda>c. - createdAt c) fetched"
  have again: "\<exists>st2. displayComments fuel now threadId (Inr fetched) st1 = Some st2
          \<and> threadComments st2 = threadComments st1 \<and> replyBox st2 = replyBox st1
          \<and> threadMainReply_display st2 = threadMainReply_display st1"
    if "displayComments fuel now threadId (Inr fetched) st = Some st1" for st1
  proof -
    from that obtain xs where xs: "render_pass fuel ?cs = Some xs"
      and st1: "st1 = reply_affordance (length fetched) (append_rendered now xs
          (st\<lparr>threadComments := [], requests := requests st @ [GET_comments threadId]\<rparr>))"
      by (auto simp: displayComments_render_pass)
    have "displayComments fuel now threadId (Inr fetched) st1 =
        Some (reply_affordance (length fetched) (append_rendered now xs
          (st1\<lparr>threadComments := [], requests := requests st1 @ [GET_comments threadId]\<rparr>)))"
      by (simp add: displayComments_render_pass xs)
    moreover have "threadComments (reply_affordance (length fetched) (append_rendered now xs
          (st1\<lparr>threadComments := [], requests := requests st1 @ [GET_comments threadId]\<rparr>)))
        = threadComments st1"
      unfolding st1 by (simp add: reply_affordance_def append_rendered_def)
    moreover have "replyBox (reply_affordance (length fetched) (append_rendered now xs
          (st1\<lparr>threadComments := [], requests := requests st1 @ [GET_comments threadId]\<rparr>)))
        = replyBox st1"
      unfolding st1 by (simp add: reply_affordance_def append_rendered_def compose_new_def)
    moreover have "threadMainReply_display (reply_affordance (length fetched) (append_rendered now xs
          (st1\<lparr>threadComments := [], requests := requests st1 @ [GET_comments threadId]\<rparr>)))
        = threadMainReply_display st1"
      unfolding st1 by (simp add: reply_affordance_def append_rendered_def)
    ultimately show ?thesis by simp
  qed
  have returns: "\<exists>st1. displayComments fuel now threadId (Inr fetched) st = Some st1"
    if "distinct (map commentId fetched)" "length fetched \<le> fuel"
    using displayComments_boxes[OF that] by blast
  show ?thesis using again returns by blast
qed

theorem render_twice_same_DOM_witness:
  "distinct (map commentId example_comments) \<and> length example_comments \<le> Suc (Suc (Suc 0))
   \<and> displayComments (Suc (Suc (Suc 0))) 100000 ''42'' (Inr example_comments)
        (example_ui [ReplyBox] ''false'') = Some example_rendered
   \<and> (\<exists>st2. displayComments (Suc (Suc (Suc 0))) 100000 ''42'' (Inr example_comments) example_rendered = Some st2
        \<and> threadComments st2 = threadComments example_rendered)"
proof -
  have len: "length example_comments \<le> Suc (Suc (Suc 0))" by (simp add: example_comments_def)
  have dist: "distinct (map commentId example_comments)" by (simp add: example_comments_def)
  have r: "displayComments (Suc (Suc (Suc 0))) 100000 ''42'' (Inr example_comments)
        (example_ui [ReplyBox] ''false'') = Some example_rendered"
    unfolding example_rendered_def by (rule example_render)
  show ?thesis
    using render_twice_same_DOM[of "Suc (Suc (Suc 0))" 100000 "''42''" example_comments
        "example_ui [ReplyBox] ''false''"] len dist r
    by auto
qed

subsection \<open>Order of the rendered comments\<close>

lemma render_order_shape:
  "render_order fuel comments k c = Some ys \<Longrightarrow>
   \<exists>zs. ys = (c, k) # zs \<and> (\<forall>(d, m) \<in> set zs. parentCommentId d \<noteq> None)"
proof (induction fuel arbitrary: k c ys)
  case 0
  then show ?case by simp
next
  case (Suc fuel)
  let ?children = "filter (\<lambda>d. parentCommentId d = Some (commentId c)) comments"
  let ?R = "render_order fuel comments (Suc k)"
  from Suc.prems obtain subs
    where subs: "those (map ?R ?children) = Some subs" and ys: "ys = (c, k) # concat subs"
    by auto
  have "parentCommentId d \<noteq> None" if "(d, m) \<in> set (concat subs)" for d m
  proof -
    from those_concat_member[OF subs that] obtain e zs
      where e: "e \<in> set ?children" "?R e = Some zs" "(d, m) \<in> set zs" by auto
    from Suc.IH[OF e(2)] obtain zs' where
      "zs = (e, Suc k) # zs'" "\<forall>(d, m) \<in> set zs'. parentCommentId d \<noteq> None" by auto
    with e(1,3) show ?thesis by auto
  qed
  then show ?case using ys by auto
qed

lemma roots_of_concat:
  assumes "those (map (render_order fuel comments 0) ds) = Some subs"
    and "\<forall>d \<in> set ds. parentCommentId d = None"
  shows "filter (\<lambda>(c, k). parentCommentId c = None) (concat subs) = map (\<lambda>c. (c, 0)) ds"
  using assms
proof (induction ds arbitrary: subs)
  case Nil
  then show ?case by simp
next
  case (Cons d ds)
  from Cons.prems(1) obtain y ys' where y: "render_order fuel comments 0 d = Some y"
    "those (map (render_order fuel comments 0) ds) = Some ys'" "subs = y # ys'"
    by (cases "render_order fuel comments 0 d";
        cases "those (map (render_order fuel comments 0) ds)") auto
  from render_order_shape[OF y(1)] obtain zs where
    zs: "y = (d, 0) # zs" "\<forall>(d, m) \<in> set zs. parentCommentId d \<noteq> None" by auto
  have "filter (\<lambda>(c, k). parentCommentId c = None) zs = []"
    using zs(2) by (auto simp: filter_empty_conv)
  then have "filter (\<lambda>(c, k). parentCommentId c = None) y = [(d, 0)]"
    using zs(1) Cons.prems(2) by simp
  moreover have "filter (\<lambda>(c, k). parentCommentId c = None) (concat ys') = map (\<lambda>c. (c, 0)) ds"
    using Cons.IH[OF y(2)] Cons.prems(2) by simp
  ultimately show ?case by (simp add: y(3))
qed

lemma render_pass_roots:
  assumes "render_pass fuel comments = Some xs"
  shows "filter (\<lambda>(c, k). parentCommentId c = None) xs =
         map (\<lambda>c. (c, 0)) (filter (\<lambda>c. parentCommentId c = None) comments)"
proof -
  let ?roots = "filter (\<lambda>c. parentCommentId c = None) comments"
  from assms obtain subs where subs: "those (map (render_order fuel comments 0) ?roots) = Some subs"
    and xs: "xs = concat subs"
    by (auto simp: render_pass_def)
  show ?thesis unfolding xs by (rule roots_of_concat[OF subs]) simp
qed

lemma render_box_parent_null:
  "(data_parent_comment_id (render_box now u c k) = ''null'') = (parentCommentId c = None)"
  by (cases "parentCommentId c") (simp_all add: render_box_def rendered_box_def String_of_int_not_null)

lemma root_boxes:
  "filter (\<lambda>b. data_parent_comment_id b = ''null'') (map (\<lambda>(c, k). render_box now u c k) xs) =
   map (\<lambda>(c, k). render_box now u c k) (filter (\<lambda>(c, k). parentCommentId c = None) xs)"
  by (induction xs) (auto simp: render_box_parent_null)

lemma latest_first:
  "sorted_wrt (\<lambda>a b. createdAt b \<le> createdAt a) (sort_key (\<lambda>c. - createdAt c) comments)"
proof -
  have "sorted (map (\<lambda>c. - createdAt c) (sort_key (\<lambda>c. - createdAt c) comments))"
    by (rule sorted_sort_key)
  then show ?thesis by (simp add: sorted_map)
qed

lemma ties_in_input_order:
  "filter (\<lambda>c. createdAt c = t) (sort_key (\<lambda>c. - createdAt c) comments) =
   filter (\<lambda>c. createdAt c = t) comments"
  using sort_key_stable[of "\<lambda>c. - createdAt c" "- t" comments] by simp


lemma ancestor_unique:
  assumes "distinct (map commentId comments)"
  shows "ancestor comments a n d \<Longrightarrow> ancestor comments a' n d \<Longrightarrow> a = a'"
proof (induction arbitrary: a' rule: ancestor.induct)
  case self
  then show ?case by (auto elim: ancestor.cases)
next
  case (step d e n)
  from step.prems obtain e'
    where e': "parentCommentId d = Some (commentId e')" "e' \<in> set comments" "ancestor comments a' n e'"
    by (cases rule: ancestor.cases) auto
  have "inj_on commentId (set comments)" using assms by (simp add: distinct_map)
  then have "e' = e" using e'(1,2) step.hyps(1,2) by (auto dest: inj_onD)
  with step.IH e'(3) show ?case by simp
qed

lemma ancestor_prepend:
  assumes "parentCommentId e = Some (commentId c)" "c \<in> set comments"
  shows "ancestor comments e n d \<Longrightarrow> ancestor comments c (Suc n) d"
proof (induction rule: ancestor.induct)
  case self
  show ?case by (rule ancestor.step[OF assms ancestor.self])
next
  case (step d e' n)
  show ?case by (rule ancestor.step[OF step.hyps(1,2) step.IH])
qed

lemma render_order_ancestor:
  assumes "render_order fuel comments k c = Some ys" "c \<in> set comments"
  shows "\<forall>(d, m) \<in> set ys. k \<le> m \<and> ancestor comments c (m - k) d"
  using assms
proof (induction fuel arbitrary: k c ys)
  case 0
  then show ?case by simp
next
  case (Suc fuel)
  let ?children = "filter (\<lambda>d. parentCommentId d = Some (commentId c)) comments"
  let ?R = "render_order fuel comments (Suc k)"
  from Suc.prems(1) obtain subs
    where subs: "those (map ?R ?children) = Some subs" and ys: "ys = (c, k) # concat subs"
    by auto
  have "k \<le> m \<and> ancestor comments c (m - k) d" if "(d, m) \<in> set (concat subs)" for d m
  proof -
    from those_concat_member[OF subs that] obtain e zs
      where e: "e \<in> set ?children" "?R e = Some zs" "(d, m) \<in> set zs" by auto
    have "e \<in> set comments" "parentCommentId e = Some (commentId c)" using e(1) by simp_all
    from Suc.IH[OF e(2) this(1)] e(3) have m: "Suc k \<le> m" "ancestor comments e (m - Suc k) d"
      by auto
    from ancestor_prepend[OF \<open>parentCommentId e = Some (commentId c)\<close> Suc.prems(2) m(2)]
    have "ancestor comments c (Suc (m - Suc k)) d" .
    moreover have "Suc (m - Suc k) = m - k" using m(1) by simp
    ultimately show ?thesis using m(1) by simp
  qed
  then show ?case using ys ancestor.self by auto
qed

lemma distinct_concat_those:
  assumes "those (map R ds) = Some subs" "distinct ds"
    and "\<And>d ys. d \<in> set ds \<Longrightarrow> R d = Some ys \<Longrightarrow> distinct (map fst ys)"
    and "\<And>d d' ys ys' z. d \<in> set ds \<Longrightarrow> d' \<in> set ds \<Longrightarrow> R d = Some ys \<Longrightarrow> R d' = Some ys' \<Longrightarrow>
           z \<in> fst ` set ys \<Longrightarrow> z \<in> fst ` set ys' \<Longrightarrow> d = d'"
  shows "distinct (map fst (concat subs))"
  using assms
proof (induction ds arbitrary: subs)
  case Nil
  then show ?case by simp
next
  case (Cons a ds)
  from Cons.prems(1) obtain y ys' where y: "R a = Some y" "those (map R ds) = Some ys'" "subs = y # ys'"
    by (cases "R a"; cases "those (map R ds)") auto
  have 1: "distinct (map fst y)" using Cons.prems(3)[of a y] y(1) by simp
  have 2: "distinct (map fst (concat ys'))"
  proof (rule Cons.IH[OF y(2)])
    show "distinct ds" using Cons.prems(2) by simp
  next
    fix d ys assume "d \<in> set ds" "R d = Some ys"
    then show "distinct (map fst ys)" using Cons.prems(3)[of d ys] by simp
  next
    fix d d' ys ys' z
    assume "d \<in> set ds" "d' \<in> set ds" "R d = Some ys" "R d' = Some ys'"
      "z \<in> fst ` set ys" "z \<in> fst ` set ys'"
    then show "d = d'" using Cons.prems(4)[of d d' ys ys' z] by simp
  qed
  have 3: "fst ` set y \<inter> fst ` set (concat ys') = {}"
  proof (rule ccontr)
    assume "fst ` set y \<inter> fst ` set (concat ys') \<noteq> {}"
    then obtain z where z: "z \<in> fst ` set y" "z \<in> fst ` set (concat ys')" by auto
    from z(2) obtain w where w: "w \<in> set (concat ys')" "fst w = z" by auto
    from those_concat_member[OF y(2) w(1)] obtain d zs
      where d: "d \<in> set ds" "R d = Some zs" "w \<in> set zs" by auto
    have "z \<in> fst ` set zs" using d(3) w(2) by force
    from Cons.prems(4)[of a d y zs z] y(1) d(1,2) z(1) this have "a = d" by simp
    with d(1) Cons.prems(2) show False by simp
  qed
  show ?case using 1 2 3 by (simp add: y(3))
qed

lemma render_order_distinct:
  assumes dist: "distinct (map commentId comments)"
  shows "render_order fuel comments k c = Some ys \<Longrightarrow> c \<in> set comments \<Longrightarrow> depth_rel comments c k \<Longrightarrow>
         distinct (map fst ys)"
proof (induction fuel arbitrary: k c ys)
  case 0
  then show ?case by simp
next
  case (Suc fuel)
  let ?children = "filter (\<lambda>d. parentCommentId d = Some (commentId c)) comments"
  let ?R = "render_order fuel comments (Suc k)"
  from Suc.prems(1) obtain subs
    where subs: "those (map ?R ?children) = Some subs" and ys: "ys = (c, k) # concat subs"
    by auto
  have dcs: "distinct comments" using dist by (simp add: distinct_map)
  have child_depth: "depth_rel comments e (Suc k)" "e \<in> set comments" if "e \<in> set ?children" for e
    using that Suc.prems(2,3) by (auto intro: depth_rel.child)
  have rest: "distinct (map fst (concat subs))"
  proof (rule distinct_concat_those[OF subs])
    show "distinct ?children" using dcs by simp
  next
    fix d zs assume "d \<in> set ?children" "?R d = Some zs"
    then show "distinct (map fst zs)" using Suc.IH child_depth by blast
  next
    fix d d' zs zs' z
    assume d: "d \<in> set ?children" "d' \<in> set ?children" "?R d = Some zs" "?R d' = Some zs'"
      "z \<in> fst ` set zs" "z \<in> fst ` set zs'"
    from d(5,6) obtain m m' where m: "(z, m) \<in> set zs" "(z, m') \<in> set zs'" by force
    have "depth_rel comments z m" "depth_rel comments z m'"
      using render_order_depth[OF d(3) child_depth(2)[OF d(1)] child_depth(1)[OF d(1)]]
        render_order_depth[OF d(4) child_depth(2)[OF d(2)] child_depth(1)[OF d(2)]] m by auto
    then have "m' = m" using depth_rel_unique[OF dist] by blast
    moreover have "ancestor comments d (m - Suc k) z" "ancestor comments d' (m' - Suc k) z"
      using render_order_ancestor[OF d(3) child_depth(2)[OF d(1)]]
        render_order_ancestor[OF d(4) child_depth(2)[OF d(2)]] m by auto
    ultimately show "d = d'" using ancestor_unique[OF dist] by simp
  qed
  have "c \<notin> fst ` set (concat subs)"
  proof
    assume "c \<in> fst ` set (concat subs)"
    then obtain m where m: "(c, m) \<in> set (concat subs)" by force
    from those_concat_member[OF subs m] obtain e zs
      where e: "e \<in> set ?children" "?R e = Some zs" "(c, m) \<in> set zs" by auto
    have "depth_rel comments c m"
      using render_order_depth[OF e(2) child_depth(2)[OF e(1)] child_depth(1)[OF e(1)]] e(3) by auto
    then have "m = k" using Suc.prems(3) depth_rel_unique[OF dist] by blast
    moreover have "Suc k \<le> m"
      using render_order_ancestor[OF e(2) child_depth(2)[OF e(1)]] e(3) by auto
    ultimately show False by simp
  qed
  with rest show ?case by (simp add: ys)
qed

lemma render_pass_distinct:
  assumes dist: "distinct (map commentId comments)" and xs: "render_pass fuel comments = Some xs"
  shows "distinct (map fst xs)"
proof -
  let ?roots = "filter (\<lambda>c. parentCommentId c = None) comments"
  let ?R = "render_order fuel comments 0"
  from xs obtain subs where subs: "those (map ?R ?roots) = Some subs" and xs': "xs = concat subs"
    by (auto simp: render_pass_def)
  have dcs: "distinct comments" using dist by (simp add: distinct_map)
  have root_depth: "depth_rel comments e 0" "e \<in> set comments" if "e \<in> set ?roots" for e
    using that by (auto intro: depth_rel.root)
  show ?thesis
    unfolding xs'
  proof (rule distinct_concat_those[OF subs])
    show "distinct ?roots" using dcs by simp
  next
    fix d zs assume "d \<in> set ?roots" "?R d = Some zs"
    then show "distinct (map fst zs)" using render_order_distinct[OF dist] root_depth by blast
  next
    fix d d' zs zs' z
    assume d: "d \<in> set ?roots" "d' \<in> set ?roots" "?R d = Some zs" "?R d' = Some zs'"
      "z \<in> fst ` set zs" "z \<in> fst ` set zs'"
    from d(5,6) obtain m m' where m: "(z, m) \<in> set zs" "(z, m') \<in> set zs'" by force
    have "depth_rel comments z m" "depth_rel comments z m'"
      using render_order_depth[OF d(3) root_depth(2)[OF d(1)] root_depth(1)[OF d(1)]]
        render_order_depth[OF d(4) root_depth(2)[OF d(2)] root_depth(1)[OF d(2)]] m by auto
    then have "m' = m" using depth_rel_unique[OF dist] by blast
    moreover have "ancestor comments d (m - 0) z" "ancestor comments d' (m' - 0) z"
      using render_order_ancestor[OF d(3) root_depth(2)[OF d(1)]]
        render_order_ancestor[OF d(4) root_depth(2)[OF d(2)]] m by auto
    ultimately show "d = d'" using ancestor_unique[OF dist] by simp
  qed
qed


lemma filter_concat_none:
  assumes "those (map R ds) = Some subs"
    and "\<And>d zs. d \<in> set ds \<Longrightarrow> R d = Some zs \<Longrightarrow> filter P zs = []"
  shows "filter P (concat subs) = []"
proof -
  have "\<not> P z" if "z \<in> set (concat subs)" for z
  proof -
    from those_concat_member[OF assms(1) that] obtain d zs
      where "d \<in> set ds" "R d = Some zs" "z \<in> set zs" by auto
    with assms(2)[of d zs] show ?thesis by (auto simp: filter_empty_conv)
  qed
  then show ?thesis by (auto simp: filter_empty_conv)
qed

lemma filter_concat_heads:
  assumes "those (map R ds) = Some subs"
    and "\<And>d zs. d \<in> set ds \<Longrightarrow> R d = Some zs \<Longrightarrow> filter P zs = [g d]"
  shows "filter P (concat subs) = map g ds"
  using assms
proof (induction ds arbitrary: subs)
  case Nil
  then show ?case by simp
next
  case (Cons a ds)
  from Cons.prems(1) obtain y ys' where y: "R a = Some y" "those (map R ds) = Some ys'" "subs = y # ys'"
    by (cases "R a"; cases "those (map R ds)") auto
  have "filter P y = [g a]" using Cons.prems(2)[of a y] y(1) by simp
  moreover have "filter P (concat ys') = map g ds"
  proof (rule Cons.IH[OF y(2)])
    fix d zs assume "d \<in> set ds" "R d = Some zs"
    then show "filter P zs = [g d]" using Cons.prems(2)[of d zs] by simp
  qed
  ultimately show ?case by (simp add: y(3))
qed

lemma filter_concat_one:
  assumes "those (map R ds) = Some subs" "distinct (map fst (concat subs))"
    and "q \<in> fst ` set (concat subs)"
    and "\<And>d zs. d \<in> set ds \<Longrightarrow> R d = Some zs \<Longrightarrow>
           filter P zs = (if q \<in> fst ` set zs then L else [])"
  shows "filter P (concat subs) = L"
  using assms
proof (induction ds arbitrary: subs)
  case Nil
  then show ?case by simp
next
  case (Cons a ds)
  from Cons.prems(1) obtain y ys' where y: "R a = Some y" "those (map R ds) = Some ys'" "subs = y # ys'"
    by (cases "R a"; cases "those (map R ds)") auto
  have disj: "fst ` set y \<inter> fst ` set (concat ys') = {}" and dr: "distinct (map fst (concat ys'))"
    using Cons.prems(2) by (simp_all add: y(3))
  have fy: "filter P y = (if q \<in> fst ` set y then L else [])"
    using Cons.prems(4)[of a y] y(1) by simp
  have rest: "\<And>d zs. d \<in> set ds \<Longrightarrow> R d = Some zs \<Longrightarrow>
           filter P zs = (if q \<in> fst ` set zs then L else [])"
    using Cons.prems(4) by (meson list.set_intros(2))
  show ?case
  proof (cases "q \<in> fst ` set y")
    case True
    then have nq: "q \<notin> fst ` set (concat ys')" using disj by auto
    have "filter P (concat ys') = []"
    proof (rule filter_concat_none[OF y(2)])
      fix d zs assume d: "d \<in> set ds" "R d = Some zs"
      have "set zs \<subseteq> set (concat ys')" using those_member[OF y(2) d(1)] d(2) by auto
      then have "q \<notin> fst ` set zs" using nq by auto
      then show "filter P zs = []" using rest[OF d] by simp
    qed
    then show ?thesis using fy True by (simp add: y(3))
  next
    case False
    then have "q \<in> fst ` set (concat ys')" using Cons.prems(3) by (auto simp: y(3))
    from Cons.IH[OF y(2) dr this rest] show ?thesis using fy False by (simp add: y(3))
  qed
qed

lemma distinct_sub:
  assumes "those (map R ds) = Some subs" "distinct (map fst (concat subs))" "d \<in> set ds" "R d = Some zs"
  shows "distinct (map fst zs) \<and> set zs \<subseteq> set (concat subs)"
proof -
  have m: "zs \<in> set subs" using those_member[OF assms(1,3)] assms(4) by auto
  then obtain pre post where "subs = pre @ zs # post" by (meson split_list)
  then show ?thesis using assms(2) by auto
qed

lemma children_absent:
  assumes dist: "distinct (map commentId comments)" and q: "q \<in> set comments"
  shows "render_order fuel comments k c = Some ys \<Longrightarrow> c \<in> set comments \<Longrightarrow> q \<notin> fst ` set ys \<Longrightarrow>
         filter (\<lambda>(e, m). parentCommentId e = Some (commentId q)) (tl ys) = []"
proof (induction fuel arbitrary: k c ys)
  case 0
  then show ?case by simp
next
  case (Suc fuel)
  let ?P = "\<lambda>(e, m). parentCommentId e = Some (commentId q)"
  let ?children = "filter (\<lambda>d. parentCommentId d = Some (commentId c)) comments"
  let ?R = "render_order fuel comments (Suc k)"
  from Suc.prems(1) obtain subs
    where subs: "those (map ?R ?children) = Some subs" and ys: "ys = (c, k) # concat subs"
    by auto
  have inj: "inj_on commentId (set comments)" using dist by (simp add: distinct_map)
  have cq: "commentId c \<noteq> commentId q"
    using Suc.prems(2,3) q inj ys by (auto dest: inj_onD)
  have "filter ?P (concat subs) = []"
  proof (rule filter_concat_none[OF subs])
    fix e zs assume e: "e \<in> set ?children" "?R e = Some zs"
    from render_order_shape[OF e(2)] obtain zs' where zs: "zs = (e, Suc k) # zs'" by auto
    have "set zs \<subseteq> set (concat subs)" using those_member[OF subs e(1)] e(2) by auto
    then have "q \<notin> fst ` set zs" using Suc.prems(3) ys by auto
    from Suc.IH[OF e(2) _ this] e(1) have "filter ?P (tl zs) = []" by simp
    moreover have "\<not> ?P (e, Suc k)" using e(1) cq by simp
    ultimately show "filter ?P zs = []" using zs by simp
  qed
  then show ?case by (simp add: ys)
qed

lemma children_present:
  assumes dist: "distinct (map commentId comments)" and q: "q \<in> set comments"
  shows "render_order fuel comments k c = Some ys \<Longrightarrow> c \<in> set comments \<Longrightarrow> distinct (map fst ys) \<Longrightarrow>
         (q, m) \<in> set ys \<Longrightarrow>
         filter (\<lambda>(e, m). parentCommentId e = Some (commentId q)) (tl ys) =
         map (\<lambda>e. (e, Suc m)) (filter (\<lambda>e. parentCommentId e = Some (commentId q)) comments)"
proof (induction fuel arbitrary: k c ys)
  case 0
  then show ?case by simp
next
  case (Suc fuel)
  let ?P = "\<lambda>(e, m). parentCommentId e = Some (commentId q)"
  let ?L = "map (\<lambda>e. (e, Suc m)) (filter (\<lambda>e. parentCommentId e = Some (commentId q)) comments)"
  let ?children = "filter (\<lambda>d. parentCommentId d = Some (commentId c)) comments"
  let ?R = "render_order fuel comments (Suc k)"
  from Suc.prems(1) obtain subs
    where subs: "those (map ?R ?children) = Some subs" and ys: "ys = (c, k) # concat subs"
    by auto
  have inj: "inj_on commentId (set comments)" using dist by (simp add: distinct_map)
  have dsub: "distinct (map fst (concat subs))" and cn: "c \<notin> fst ` set (concat subs)"
    using Suc.prems(3) ys by auto
  show ?case
  proof (cases "q = c")
    case True
    then have mk: "m = k"
      using Suc.prems(4) cn ys by force
    have "filter ?P (concat subs) = map (\<lambda>e. (e, Suc k)) ?children"
    proof (rule filter_concat_heads[OF subs])
      fix e zs assume e: "e \<in> set ?children" "?R e = Some zs"
      from render_order_shape[OF e(2)] obtain zs' where zs: "zs = (e, Suc k) # zs'" by auto
      have "set zs \<subseteq> set (concat subs)" using those_member[OF subs e(1)] e(2) by auto
      then have "q \<notin> fst ` set zs" using cn True by auto
      from children_absent[OF dist q e(2) _ this] e(1) have "filter ?P (tl zs) = []" by simp
      moreover have "?P (e, Suc k)" using e(1) True by simp
      ultimately show "filter ?P zs = [(e, Suc k)]" using zs by simp
    qed
    then show ?thesis using True mk by (simp add: ys)
  next
    case False
    then have cq: "commentId c \<noteq> commentId q"
      using Suc.prems(2) q inj by (auto dest: inj_onD)
    have qin: "(q, m) \<in> set (concat subs)" using Suc.prems(4) False ys by auto
    have "filter ?P (concat subs) = ?L"
    proof (rule filter_concat_one[OF subs dsub])
      show "q \<in> fst ` set (concat subs)" using qin by force
    next
      fix e zs assume e: "e \<in> set ?children" "?R e = Some zs"
      from render_order_shape[OF e(2)] obtain zs' where zs: "zs = (e, Suc k) # zs'" by auto
      note ds = distinct_sub[OF subs dsub e]
      have head: "\<not> ?P (e, Suc k)" using e(1) cq by simp
      show "filter ?P zs = (if q \<in> fst ` set zs then ?L else [])"
      proof (cases "q \<in> fst ` set zs")
        case True
        then obtain m' where m': "(q, m') \<in> set zs" by force
        then have "(q, m') \<in> set (concat subs)" using ds by auto
        then have "m' = m" using qin dsub by (meson eq_key_imp_eq_value)
        with m' have "(q, m) \<in> set zs" by simp
        from Suc.IH[OF e(2) _ _ this] e(1) ds have "filter ?P (tl zs) = ?L" by simp
        then show ?thesis using True head zs by simp
      next
        case False
        from children_absent[OF dist q e(2) _ False] e(1) have "filter ?P (tl zs) = []" by simp
        then show ?thesis using False head zs by simp
      qed
    qed
    then show ?thesis using cq by (simp add: ys)
  qed
qed

lemma render_pass_children:
  assumes dist: "distinct (map commentId comments)" and q: "q \<in> set comments"
    and xs: "render_pass fuel comments = Some xs" and qm: "(q, m) \<in> set xs"
  shows "filter (\<lambda>(e, m). parentCommentId e = Some (commentId q)) xs =
         map (\<lambda>e. (e, Suc m)) (filter (\<lambda>e. parentCommentId e = Some (commentId q)) comments)"
proof -
  let ?P = "\<lambda>(e, m). parentCommentId e = Some (commentId q)"
  let ?L = "map (\<lambda>e. (e, Suc m)) (filter (\<lambda>e. parentCommentId e = Some (commentId q)) comments)"
  let ?roots = "filter (\<lambda>c. parentCommentId c = None) comments"
  let ?R = "render_order fuel comments 0"
  from xs obtain subs where subs: "those (map ?R ?roots) = Some subs" and xs': "xs = concat subs"
    by (auto simp: render_pass_def)
  have dsub: "distinct (map fst (concat subs))"
    using render_pass_distinct[OF dist xs] xs' by simp
  have "filter ?P (concat subs) = ?L"
  proof (rule filter_concat_one[OF subs dsub])
    show "q \<in> fst ` set (concat subs)" using qm xs' by force
  next
    fix e zs assume e: "e \<in> set ?roots" "?R e = Some zs"
    from render_order_shape[OF e(2)] obtain zs' where zs: "zs = (e, 0) # zs'" by auto
    note ds = distinct_sub[OF subs dsub e]
    have head: "\<not> ?P (e, 0)" using e(1) by simp
    show "filter ?P zs = (if q \<in> fst ` set zs then ?L else [])"
    proof (cases "q \<in> fst ` set zs")
      case True
      then obtain m' where m': "(q, m') \<in> set zs" by force
      then have "(q, m') \<in> set (concat subs)" using ds by auto
      then have "m' = m" using qm xs' dsub by (meson eq_key_imp_eq_value)
      with m' have "(q, m) \<in> set zs" by simp
      from children_present[OF dist q e(2) _ _ this] e(1) ds have "filter ?P (tl zs) = ?L" by simp
      then show ?thesis using True head zs by simp
    next
      case False
      from children_absent[OF dist q e(2) _ False] e(1) have "filter ?P (tl zs) = []" by simp
      then show ?thesis using False head zs by simp
    qed
  qed
  then show ?thesis by (simp add: xs')
qed


lemma show_nat_inj: "show_nat a = show_nat b \<Longrightarrow> a = b"
  by (metis parseInt_show_nat option.inject of_nat_eq_iff)

lemma render_box_parent_id:
  "(data_parent_comment_id (render_box now u c k) = String_of_int p) = (parentCommentId c = Some p)"
  using String_of_int_not_null[of p] String_of_int_inj
  by (cases "parentCommentId c") (auto simp: render_box_def rendered_box_def)

lemma child_boxes:
  "filter (\<lambda>b. data_parent_comment_id b = String_of_int p) (map (\<lambda>(c, k). render_box now u c k) xs) =
   map (\<lambda>(c, k). render_box now u c k) (filter (\<lambda>(c, k). parentCommentId c = Some p) xs)"
  by (induction xs) (auto simp: render_box_parent_id)

lemma render_box_inj:
  assumes "render_box now u c k = render_box now u c' k'"
  shows "commentId c = commentId c' \<and> k = k'"
proof -
  from assms have "data_comment_id (render_box now u c k) = data_comment_id (render_box now u c' k')"
    "marginLeft (render_box now u c k) = marginLeft (render_box now u c' k')" by simp_all
  then have "String_of_int (commentId c) = String_of_int (commentId c')"
    "show_nat (k * 10) = show_nat (k' * 10)"
    by (simp_all add: render_box_def rendered_box_def)
  then show ?thesis using String_of_int_inj show_nat_inj by fastforce
qed

lemma displayComments_Some_boxes:
  assumes "displayComments fuel now threadId (Inr fetched) st = Some st'"
  shows "\<exists>xs. render_pass fuel (sort_key (\<lambda>c. - createdAt c) fetched) = Some xs
     \<and> boxes (threadComments st') = map (\<lambda>(c, k). render_box now (localStorage_userId st) c k) xs"
proof -
  from assms obtain xs where xs: "render_pass fuel (sort_key (\<lambda>c. - createdAt c) fetched) = Some xs"
    and st': "st' = reply_affordance (length fetched) (append_rendered now xs
        (st\<lparr>threadComments := [], requests := requests st @ [GET_comments threadId]\<rparr>))"
    by (auto simp: displayComments_render_pass)
  have "boxes (threadComments st') = map (\<lambda>(c, k). render_box now (localStorage_userId st) c k) xs"
    unfolding st' by (simp add: boxes_reply_affordance boxes_append_rendered)
  with xs show ?thesis by blast
qed

text \<open>
  Claim C3. In the list that a render pass has built, the boxes of the root comments (those
  with \<open>data-parent-comment-id = "null"\<close>) are the roots of the fetched list sorted by
  \<open>createdAt\<close>, latest first, roots of equal \<open>createdAt\<close> in the order of the fetched
  list. For a flat list with unique ids the pass returns, and for every rendered comment the
  boxes of its direct children stand in the order in which the children stand in the sorted
  flat list, one level deeper than the comment.
\<close>

theorem roots_latest_first_children_in_list_order:
  "(\<forall>st'. displayComments fuel now threadId (Inr fetched) st = Some st' \<longrightarrow>
       filter (\<lambda>b. data_parent_comment_id b = ''null'') (boxes (threadComments st')) =
         map (\<lambda>c. render_box now (localStorage_userId st) c 0)
           (sort_key (\<lambda>c. - createdAt c) (filter (\<lambda>c. parentCommentId c = None) fetched)))
   \<and> sorted_wrt (\<lambda>a b. createdAt b \<le> createdAt a)
         (sort_key (\<lambda>c. - createdAt c) (filter (\<lambda>c. parentCommentId c = None) fetched))
   \<and> (\<forall>t. filter (\<lambda>c. createdAt c = t)
              (sort_key (\<lambda>c. - createdAt c) (filter (\<lambda>c. parentCommentId c = None) fetched)) =
            filter (\<lambda>c. createdAt c = t) (filter (\<lambda>c. parentCommentId c = None) fetched))
   \<and> (distinct (map commentId fetched) \<and> length fetched \<le> fuel \<longrightarrow>
       (\<exists>st'. displayComments fuel now threadId (Inr fetched) st = Some st'
          \<and> (\<forall>q m. q \<in> set fetched
                 \<and> render_box now (localStorage_userId st) q m \<in> set (boxes (threadComments st')) \<longrightarrow>
               filter (\<lambda>b. data_parent_comment_id b = String_of_int (commentId q))
                 (boxes (threadComments st')) =
               map (\<lambda>e. render_box now (localStorage_userId st) e (Suc m))
                 (filter (\<lambda>e. parentCommentId e = Some (commentId q))
                    (sort_key (\<lambda>c. - createdAt c) fetched)))))"
proof -
  let ?cs = "sort_key (\<lambda>c. - createdAt c) fetched"
  let ?u = "localStorage_userId st"
  let ?rb = "\<lambda>(c, k). render_box now ?u c k"
  have roots: "filter (\<lambda>b. data_parent_comment_id b = ''null'') (boxes (threadComments st')) =
      map (\<lambda>c. render_box now ?u c 0) (sort_key (\<lambda>c. - createdAt c) (filter (\<lambda>c. parentCommentId c = None) fetched))"
    if "displayComments fuel now threadId (Inr fetched) st = Some st'" for st'
  proof -
    from displayComments_Some_boxes[OF that] obtain xs where xs: "render_pass fuel ?cs = Some xs"
      and bx: "boxes (threadComments st') = map ?rb xs" by blast
    show ?thesis
      unfolding bx root_boxes render_pass_roots[OF xs]
      by (simp add: filter_sort comp_def)
  qed
  have children: "\<exists>st'. displayComments fuel now threadId (Inr fetched) st = Some st'
          \<and> (\<forall>q m. q \<in> set fetched \<and> render_box now ?u q m \<in> set (boxes (threadComments st')) \<longrightarrow>
               filter (\<lambda>b. data_parent_comment_id b = String_of_int (commentId q))
                 (boxes (threadComments st')) =
               map (\<lambda>e. render_box now ?u e (Suc m))
                 (filter (\<lambda>e. parentCommentId e = Some (commentId q)) ?cs))"
    if d: "distinct (map commentId fetched)" and l: "length fetched \<le> fuel"
  proof -
    obtain st' xs where st': "displayComments fuel now threadId (Inr fetched) st = Some st'"
      and xs: "render_pass fuel ?cs = Some xs"
      and bx: "boxes (threadComments st') = map ?rb xs"
      using displayComments_boxes[OF d l] by blast
    have dist: "distinct (map commentId ?cs)" using d by (simp add: distinct_ids_sort)
    have inj: "inj_on commentId (set fetched)" using d by (simp add: distinct_map)
    have "filter (\<lambda>b. data_parent_comment_id b = String_of_int (commentId q)) (boxes (threadComments st')) =
        map (\<lambda>e. render_box now ?u e (Suc m)) (filter (\<lambda>e. parentCommentId e = Some (commentId q)) ?cs)"
      if q: "q \<in> set fetched" and b: "render_box now ?u q m \<in> set (boxes (threadComments st'))" for q m
    proof -
      from b bx obtain c k where ck: "(c, k) \<in> set xs" "render_box now ?u q m = render_box now ?u c k"
        by auto
      have "c \<in> set fetched" using render_pass_depth[OF xs] ck(1) by auto
      moreover have "commentId q = commentId c" "m = k" using render_box_inj[OF ck(2)] by simp_all
      ultimately have "(q, m) \<in> set xs" using ck(1) q inj by (auto dest: inj_onD)
      from render_pass_children[OF dist _ xs this] q
      have "filter (\<lambda>(e, m). parentCommentId e = Some (commentId q)) xs =
          map (\<lambda>e. (e, Suc m)) (filter (\<lambda>e. parentCommentId e = Some (commentId q)) ?cs)"
        by simp
      then show ?thesis unfolding bx child_boxes by (simp add: comp_def)
    qed
    with st' show ?thesis by blast
  qed
  show ?thesis
    using roots children latest_first ties_in_input_order by blast
qed

theorem roots_latest_first_children_in_list_order_witness:
  "distinct (map commentId example_comments) \<and> length example_comments \<le> Suc (Suc (Suc 0))
   \<and> (\<exists>st'. displayComments (Suc (Suc (Suc 0))) 100000 ''42'' (Inr example_comments)
               (example_ui [ReplyBox] ''false'') = Some st'
        \<and> map data_comment_id
             (filter (\<lambda>b. data_parent_comment_id b = ''null'') (boxes (threadComments st'))) = [''3'', ''1'']
        \<and> map data_comment_id
             (filter (\<lambda>b. data_parent_comment_id b = ''1'') (boxes (threadComments st'))) = [''2''])"
proof -
  have len: "length example_comments \<le> Suc (Suc (Suc 0))" by (simp add: example_comments_def)
  have dist: "distinct (map commentId example_comments)" by (simp add: example_comments_def)
  have vals: "map data_comment_id
      (filter (\<lambda>b. data_parent_comment_id b = ''null'') (boxes (threadComments example_rendered))) = [''3'', ''1'']"
    "map data_comment_id
      (filter (\<lambda>b. data_parent_comment_id b = ''1'') (boxes (threadComments example_rendered))) = [''2'']"
    by (simp_all add: example_rendered_def rendered_box_def example_comments_def js_eval)
  show ?thesis
    using roots_latest_first_children_in_list_order[of "Suc (Suc (Suc 0))" 100000 "''42''"
        example_comments "example_ui [ReplyBox] ''false''"] dist len example_render vals
    unfolding example_rendered_def by auto
qed

subsection \<open>Rendered lists carry each id once\<close>

text \<open>
  A list rendered from records with unique ids carries every \<open>data-comment-id\<close> once, so
  that the search loops of \<open>displayCommentReply\<close> find the very comment that was clicked.
\<close>

lemma rendered_ids_distinct:
  assumes "distinct (map commentId fetched)"
    and "displayComments fuel now threadId (Inr fetched) st = Some st'"
  shows "distinct (map data_comment_id (boxes (threadComments st')))"
proof -
  let ?cs = "sort_key (\<lambda>c. - createdAt c) fetched"
  from displayComments_Some_boxes[OF assms(2)] obtain xs where xs: "render_pass fuel ?cs = Some xs"
    and bx: "boxes (threadComments st') = map (\<lambda>(c, k). render_box now (localStorage_userId st) c k) xs"
    by blast
  have dist: "distinct (map commentId ?cs)" using assms(1) by (simp add: distinct_ids_sort)
  have inj: "inj_on commentId (set fetched)" using assms(1) by (simp add: distinct_map)
  have sub: "set (map fst xs) \<subseteq> set fetched" using render_pass_depth[OF xs] by auto
  have "distinct (map fst xs)" by (rule render_pass_distinct[OF dist xs])
  moreover have "inj_on commentId (set (map fst xs))"
    using inj sub by (rule inj_on_subset)
  ultimately have "distinct (map commentId (map fst xs))"
    by (subst distinct_map) simp
  then have "distinct (map String_of_int (map commentId (map fst xs)))"
    by (simp add: distinct_map inj_on_def String_of_int_inj)
  moreover have "map data_comment_id (boxes (threadComments st')) =
      map String_of_int (map commentId (map fst xs))"
    unfolding bx by (simp add: render_box_margin case_prod_unfold)
  ultimately show ?thesis by simp
qed

lemma boxes_drop_subset: "set (boxes (drop j children)) \<subseteq> set (boxes children)"
  by (metis append_take_drop_id boxes_append Un_upper2 set_append)

lemma distinct_ids_no_later:
  assumes "distinct (map data_comment_id (boxes children))"
    and "i < length children" "children ! i = CommentBox x"
  shows "\<forall>n \<in> set (drop (i + 1) children). \<not> carries_id (data_comment_id x) n"
proof -
  have split: "children = take i children @ CommentBox x # drop (i + 1) children"
    using id_take_nth_drop[OF assms(2)] assms(3) by simp
  have "boxes children = boxes (take i children) @ x # boxes (drop (i + 1) children)"
    by (subst split) (simp add: boxes_append)
  then have "data_comment_id x \<notin> data_comment_id ` set (boxes (drop (i + 1) children))"
    using assms(1) by auto
  moreover have "b \<in> set (boxes cs)" if "CommentBox b \<in> set cs" for b cs
    using that by (induction cs rule: boxes.induct) auto
  ultimately show ?thesis
    by (metis carries_id.elims(2) image_eqI)
qed

end
